theory Spec2Isabelle
  imports Complex_Main "HOL-Library.Word" "HOL-Library.Signed_Division" "HOL-Library.Multiset"
begin

section \<open>Numbers, vectors and meshes\<close>

text \<open>
  The program (\<^verbatim>\<open>src/main.cpp\<close>) computes with C++ \<^verbatim>\<open>float\<close>, \<^verbatim>\<open>int\<close> and
  \<^verbatim>\<open>unsigned int\<close>.
  \<^item> A \<^verbatim>\<open>float\<close> is modelled by a \<^typ>\<open>real\<close>: arithmetic is exact, and NaN and the
    infinities are not represented. Every property below is a property of the control flow
    and of the comparisons the code makes; none depends on how a result is rounded.
  \<^item> An \<^verbatim>\<open>int\<close> expression is computed in \<^typ>\<open>int\<close>; where the code stores it in an
    \<^verbatim>\<open>unsigned int\<close> the model converts with \<open>u32\<close>, which reduces modulo \<open>2 ^ 32\<close>.
    This is what two's-complement wrap-around of the \<^verbatim>\<open>int\<close> expression followed by the
    conversion gives.
  \<^item> The C++ operator \<^verbatim>\<open>%\<close> on \<^verbatim>\<open>int\<close> truncates towards zero: it is \<open>smod\<close>.
\<close>

type_synonym uint32 = "32 word"

definition u32 :: "int \<Rightarrow> uint32" where
  "u32 k = word_of_int k"

datatype vec3 = Vec3 (vec_x: real) (vec_y: real) (vec_z: real)

definition vec_add :: "vec3 \<Rightarrow> vec3 \<Rightarrow> vec3" where
  "vec_add a b = Vec3 (vec_x a + vec_x b) (vec_y a + vec_y b) (vec_z a + vec_z b)"

definition vec_sub :: "vec3 \<Rightarrow> vec3 \<Rightarrow> vec3" where
  "vec_sub a b = Vec3 (vec_x a - vec_x b) (vec_y a - vec_y b) (vec_z a - vec_z b)"

definition vec_scale :: "vec3 \<Rightarrow> real \<Rightarrow> vec3" where
  "vec_scale a s = Vec3 (vec_x a * s) (vec_y a * s) (vec_z a * s)"

definition dot :: "vec3 \<Rightarrow> vec3 \<Rightarrow> real" where
  "dot a b = vec_x a * vec_x b + vec_y a * vec_y b + vec_z a * vec_z b"

text \<open>\<^verbatim>\<open>glm::length(v)\<close> is \<^verbatim>\<open>sqrt(dot(v, v))\<close>, \<^verbatim>\<open>glm::distance(a, b)\<close> is
  \<^verbatim>\<open>length(b - a)\<close> and \<^verbatim>\<open>glm::normalize(v)\<close> (here \<open>normalize_vec\<close>) is \<^verbatim>\<open>v * inversesqrt(dot(v, v))\<close>.\<close>

definition vec_length :: "vec3 \<Rightarrow> real" where
  "vec_length v = sqrt (dot v v)"

definition distance :: "vec3 \<Rightarrow> vec3 \<Rightarrow> real" where
  "distance a b = vec_length (vec_sub b a)"

definition normalize_vec :: "vec3 \<Rightarrow> vec3" where
  "normalize_vec v = vec_scale v (1 / sqrt (dot v v))"

text \<open>
  \<^verbatim>\<open>struct Mesh\<close>: a flat array of floats, 14 per vertex (position 3, normal 3, texture
  coordinate 2, tangent 3, bitangent 3: the stride \<^verbatim>\<open>14 * sizeof(float)\<close> of
  \<^verbatim>\<open>setup()\<close>), and a flat array of indices. The fields \<^verbatim>\<open>VAO\<close>, \<^verbatim>\<open>VBO\<close> and
  \<^verbatim>\<open>EBO\<close> are handles that OpenGL hands out in \<^verbatim>\<open>setup()\<close>, which uploads the two
  arrays and changes neither; they are not modelled.
\<close>

record mesh =
  vertices :: "real list"
  indices :: "uint32 list"
  texture :: uint32
  normalMap :: uint32

definition vertex_count :: "mesh \<Rightarrow> nat" where
  "vertex_count m = length (vertices m) div 14"

section \<open>generateCone\<close>

text \<open>The constant \<^verbatim>\<open>3.14159f\<close> of the source.\<close>

definition pi_f :: real where
  "pi_f = 314159 / 100000"

text \<open>The first loop of \<^verbatim>\<open>generateCone\<close>: one base-rim vertex and one side vertex per
  segment, appended to the vertex array.\<close>

function cone_vertices :: "real \<Rightarrow> real \<Rightarrow> int \<Rightarrow> real \<Rightarrow> int \<Rightarrow> real list \<Rightarrow> real list" where
  "cone_vertices radius height segments angleStep i vs =
     (if i < segments then
        (let angle = of_int i * angleStep;
             x = radius * cos angle;
             z = radius * sin angle;
             u = (x / radius + 1) * 0.5;
             v = (z / radius + 1) * 0.5;
             vs1 = vs @ [x, 0, z, 0, -1, 0, u, v, 1, 0, 0, 0, 0, 1];
             sideNormal = normalize_vec (Vec3 x (radius / height) z);
             vs2 = vs1 @ [x, 0, z, vec_x sideNormal, vec_y sideNormal, vec_z sideNormal,
                          of_int i / of_int segments, 0, 1, 0, 0, 0, 1, 0]
         in cone_vertices radius height segments angleStep (i + 1) vs2)
      else vs)"
  by pat_completeness auto
termination
  by (relation "measure (\<lambda>(radius, height, segments, angleStep, i, vs). nat (segments - i))") auto

declare cone_vertices.simps [simp del]

text \<open>The second loop: the triangles of the base fan.\<close>

function cone_base_indices :: "int \<Rightarrow> int \<Rightarrow> uint32 list \<Rightarrow> uint32 list" where
  "cone_base_indices segments i ixs =
     (if i < segments then
        cone_base_indices segments (i + 1)
          (ixs @ [u32 0, u32 (2 + i * 2), u32 (2 + ((i + 1) smod segments) * 2)])
      else ixs)"
  by pat_completeness auto
termination
  by (relation "measure (\<lambda>(segments, i, ixs). nat (segments - i))") auto

declare cone_base_indices.simps [simp del]

text \<open>The third loop: the triangles of the side, each to the apex.\<close>

function cone_side_indices :: "int \<Rightarrow> int \<Rightarrow> uint32 list \<Rightarrow> uint32 list" where
  "cone_side_indices segments i ixs =
     (if i < segments then
        cone_side_indices segments (i + 1)
          (ixs @ [u32 1, u32 (2 + ((i + 1) smod segments) * 2 + 1), u32 (2 + i * 2 + 1)])
      else ixs)"
  by pat_completeness auto
termination
  by (relation "measure (\<lambda>(segments, i, ixs). nat (segments - i))") auto

declare cone_side_indices.simps [simp del]

definition generateCone :: "real \<Rightarrow> real \<Rightarrow> int \<Rightarrow> uint32 \<Rightarrow> mesh" where
  "generateCone radius height segments tex =
     (let angleStep = 2 * pi_f / of_int segments;
          vs0 = [] @ [0, 0, 0, 0, -1, 0, 0.5, 0.5, 1, 0, 0, 0, 0, 1];
          vs1 = vs0 @ [0, height, 0, 0, 1, 0, 0.5, 0.5, 1, 0, 0, 0, 0, 1];
          vs2 = cone_vertices radius height segments angleStep 0 vs1;
          ixs1 = cone_base_indices segments 0 [];
          ixs2 = cone_side_indices segments 0 ixs1
      in \<lparr>vertices = vs2, indices = ixs2, texture = tex, normalMap = 0\<rparr>)"

section \<open>generateCylinder\<close>

text \<open>The first loop of \<^verbatim>\<open>generateCylinder\<close>: per segment a bottom-rim and a top-rim
  vertex for the caps and a bottom and a top vertex for the side.\<close>

function cylinder_vertices :: "real \<Rightarrow> real \<Rightarrow> int \<Rightarrow> real \<Rightarrow> int \<Rightarrow> real list \<Rightarrow> real list" where
  "cylinder_vertices radius height segments angleStep i vs =
     (if i < segments then
        (let angle = of_int i * angleStep;
             x = radius * cos angle;
             z = radius * sin angle;
             u = of_int i / of_int segments;
             vs1 = vs @ [x, 0, z, 0, -1, 0, u, 0, 1, 0, 0, 0, 0, 1];
             vs2 = vs1 @ [x, height, z, 0, 1, 0, u, 1, 1, 0, 0, 0, 0, 1];
             n = normalize_vec (Vec3 x 0 z);
             vs3 = vs2 @ [x, 0, z, vec_x n, vec_y n, vec_z n, u, 1, - z, 0, x, 0, 1, 0];
             vs4 = vs3 @ [x, height, z, vec_x n, vec_y n, vec_z n, u, 0, - z, 0, x, 0, 1, 0]
         in cylinder_vertices radius height segments angleStep (i + 1) vs4)
      else vs)"
  by pat_completeness auto
termination
  by (relation "measure (\<lambda>(radius, height, segments, angleStep, i, vs). nat (segments - i))") auto

declare cylinder_vertices.simps [simp del]

text \<open>The second loop: per segment one triangle of the bottom cap, one of the top cap and
  the two triangles of the side quad.\<close>

function cylinder_indices :: "int \<Rightarrow> int \<Rightarrow> int \<Rightarrow> uint32 list \<Rightarrow> uint32 list" where
  "cylinder_indices baseOffset segments i ixs =
     (if i < segments then
        (let next = (i + 1) smod segments;
             ixs1 = ixs @ [u32 0, u32 (baseOffset + i * 4), u32 (baseOffset + next * 4)];
             ixs2 = ixs1 @ [u32 1, u32 (baseOffset + next * 4 + 1), u32 (baseOffset + i * 4 + 1)];
             bl = baseOffset + i * 4 + 2;
             tl = baseOffset + i * 4 + 3;
             br = baseOffset + next * 4 + 2;
             tr = baseOffset + next * 4 + 3;
             ixs3 = ixs2 @ [u32 bl, u32 tr, u32 tl];
             ixs4 = ixs3 @ [u32 bl, u32 br, u32 tr]
         in cylinder_indices baseOffset segments (i + 1) ixs4)
      else ixs)"
  by pat_completeness auto
termination
  by (relation "measure (\<lambda>(baseOffset, segments, i, ixs). nat (segments - i))") auto

declare cylinder_indices.simps [simp del]

definition generateCylinder :: "real \<Rightarrow> real \<Rightarrow> int \<Rightarrow> uint32 \<Rightarrow> mesh" where
  "generateCylinder radius height segments tex =
     (let angleStep = 2 * pi_f / of_int segments;
          vs0 = [] @ [0, 0, 0, 0, -1, 0, 0.5, 0.5, 1, 0, 0, 0, 0, 1];
          vs1 = vs0 @ [0, height, 0, 0, 1, 0, 0.5, 0.5, 1, 0, 0, 0, 0, 1];
          vs2 = cylinder_vertices radius height segments angleStep 0 vs1;
          baseOffset = 2;
          ixs1 = cylinder_indices baseOffset segments 0 []
      in \<lparr>vertices = vs2, indices = ixs1, texture = tex, normalMap = 0\<rparr>)"

section \<open>The height map\<close>

text \<open>
  \<^verbatim>\<open>sf::Image\<close> belongs to the SFML library. Its model follows the library's
  documentation: \<^verbatim>\<open>getSize()\<close> gives the width and the height as \<^verbatim>\<open>unsigned int\<close>;
  the pixels are stored row by row, four bytes (red, green, blue, alpha) each;
  \<^verbatim>\<open>getPixel(x, y)\<close> "doesn't perform any check on the coordinates of the pixel; if it
  is out of range, the result is undefined behavior". An image that was never loaded, or
  whose \<^verbatim>\<open>loadFromFile\<close> failed, has size 0 by 0 and no pixels. The model turns a read
  out of range into the error value \<open>PixelOutOfRange\<close>.
\<close>

datatype color = Color (col_r: "8 word") (col_g: "8 word") (col_b: "8 word") (col_a: "8 word")

record image =
  size_x :: uint32
  size_y :: uint32
  pixels :: "8 word list"

datatype sim_error = PixelOutOfRange

definition getPixel :: "image \<Rightarrow> uint32 \<Rightarrow> uint32 \<Rightarrow> sim_error + color" where
  "getPixel img x y =
     (let k = (unat x + unat y * unat (size_x img)) * 4 in
      if x < size_x img \<and> y < size_y img \<and> k + 3 < length (pixels img)
      then Inr (Color (pixels img ! k) (pixels img ! (k + 1))
                      (pixels img ! (k + 2)) (pixels img ! (k + 3)))
      else Inl PixelOutOfRange)"

text \<open>The conversion \<^verbatim>\<open>(unsigned int) f\<close> of a float drops the fractional part.\<close>

definition float_to_uint :: "real \<Rightarrow> uint32" where
  "float_to_uint f = u32 (if 0 \<le> f then \<lfloor>f\<rfloor> else \<lceil>f\<rceil>)"

definition uint_to_float :: "uint32 \<Rightarrow> real" where
  "uint_to_float w = real (unat w)"

definition getTerrainHeight :: "real \<Rightarrow> real \<Rightarrow> image \<Rightarrow> real \<Rightarrow> real \<Rightarrow> sim_error + real" where
  "getTerrainHeight worldX worldZ heightMap terrainScale terrainHeightScale =
     (let mapSize = 100 * terrainScale;
          halfSize = mapSize / 2
      in if worldX < - halfSize \<or> worldX > halfSize \<or> worldZ < - halfSize \<or> worldZ > halfSize
         then Inr 0
         else
           (let u = (worldX + halfSize) / mapSize;
                v = (worldZ + halfSize) / mapSize;
                x = float_to_uint (u * uint_to_float (size_x heightMap));
                y = float_to_uint (v * uint_to_float (size_y heightMap));
                x = (if x \<ge> size_x heightMap then size_x heightMap - 1 else x);
                y = (if y \<ge> size_y heightMap then size_y heightMap - 1 else y)
            in case getPixel heightMap x y of
                 Inl e \<Rightarrow> Inl e
               | Inr c \<Rightarrow> Inr ((real (unat (col_r c)) / 255) * terrainHeightScale)))"



section \<open>Parcels, targets and the update loop\<close>

record parcel =
  position :: vec3
  velocity :: vec3
  mesh :: mesh
  radius :: real
  active :: bool

record target =
  position :: vec3
  body :: mesh
  roof :: mesh
  radius :: real
  active :: bool

text \<open>A \<^verbatim>\<open>Parcel\<close> or \<^verbatim>\<open>Target\<close> as \<^verbatim>\<open>main\<close> creates it: the default member
  initialisers of the struct, and the members that \<^verbatim>\<open>main\<close> assigns.\<close>

definition new_parcel :: "vec3 \<Rightarrow> mesh \<Rightarrow> parcel" where
  "new_parcel pos m =
     \<lparr>parcel.position = pos, velocity = Vec3 0 (- 9.8) 0, mesh = m,
      parcel.radius = 0.5, parcel.active = True\<rparr>"

definition new_target :: "vec3 \<Rightarrow> mesh \<Rightarrow> mesh \<Rightarrow> target" where
  "new_target pos b r =
     \<lparr>target.position = pos, body = b, roof = r, target.radius = 2.5, target.active = True\<rparr>"

text \<open>The two constants that \<^verbatim>\<open>main\<close> sets once and never changes.\<close>

definition terrainScale :: real where
  "terrainScale = 2"

definition terrainHeightScale :: real where
  "terrainHeightScale = 10"

text \<open>
  The inner loop over the targets (lines 501 to 506), for one parcel \<open>p\<close> that has been
  integrated and is above the ground; \<open>hits\<close> is the test of line 503. The \<^verbatim>\<open>break\<close>
  is the branch that does not recurse.
  The score is a C++ \<^verbatim>\<open>int\<close>; it is modelled by an \<^typ>\<open>int\<close>, since it grows by one only
  when an active target is deactivated and so stays below the number of targets.
\<close>

definition hits :: "parcel \<Rightarrow> target \<Rightarrow> bool" where
  "hits p t \<longleftrightarrow>
     distance (parcel.position p) (target.position t) < parcel.radius p + target.radius t"

fun hit_targets :: "parcel \<Rightarrow> target list \<Rightarrow> int \<Rightarrow> parcel \<times> target list \<times> int" where
  "hit_targets p [] sc = (p, [], sc)"
| "hit_targets p (t # ts) sc =
     (if \<not> target.active t then
        (case hit_targets p ts sc of (p', ts', sc') \<Rightarrow> (p', t # ts', sc'))
      else if hits p t then
        (p\<lparr>parcel.active := False\<rparr>, t\<lparr>target.active := False\<rparr> # ts, sc + 1)
      else
        (case hit_targets p ts sc of (p', ts', sc') \<Rightarrow> (p', t # ts', sc')))"

text \<open>Line 498, \<^verbatim>\<open>p.position += p.velocity * dt\<close>.\<close>

definition integrate :: "real \<Rightarrow> parcel \<Rightarrow> parcel" where
  "integrate dt p =
     p\<lparr>parcel.position := vec_add (parcel.position p) (vec_scale (parcel.velocity p) dt)\<rparr>"

text \<open>The body of the outer loop (lines 497 to 506) for one parcel.\<close>

definition update_parcel ::
  "real \<Rightarrow> image \<Rightarrow> parcel \<Rightarrow> target list \<Rightarrow> int \<Rightarrow> sim_error + (parcel \<times> target list \<times> int)" where
  "update_parcel dt heightMapImage p ts sc =
     (if \<not> parcel.active p then Inr (p, ts, sc)
      else
        (let p1 = integrate dt p
         in case getTerrainHeight (vec_x (parcel.position p1)) (vec_z (parcel.position p1))
                   heightMapImage terrainScale terrainHeightScale of
              Inl e \<Rightarrow> Inl e
            | Inr terrainH \<Rightarrow>
                if vec_y (parcel.position p1) \<le> terrainH
                then Inr (p1\<lparr>parcel.active := False\<rparr>, ts, sc)
                else Inr (hit_targets p1 ts sc)))"

text \<open>The outer loop over the parcels (lines 496 to 507): one simulation tick.\<close>

fun update_parcels ::
  "real \<Rightarrow> image \<Rightarrow> parcel list \<Rightarrow> target list \<Rightarrow> int
     \<Rightarrow> sim_error + (parcel list \<times> target list \<times> int)" where
  "update_parcels dt heightMapImage [] ts sc = Inr ([], ts, sc)"
| "update_parcels dt heightMapImage (p # ps) ts sc =
     (case update_parcel dt heightMapImage p ts sc of
        Inl e \<Rightarrow> Inl e
      | Inr (p', ts', sc') \<Rightarrow>
          (case update_parcels dt heightMapImage ps ts' sc' of
             Inl e \<Rightarrow> Inl e
           | Inr (ps', ts'', sc'') \<Rightarrow> Inr (p' # ps', ts'', sc'')))"

text \<open>The update loop run once per frame, one elapsed time per frame, with no parcel
  spawned in between.\<close>

fun ticks ::
  "image \<Rightarrow> real list \<Rightarrow> parcel list \<Rightarrow> target list \<Rightarrow> int
     \<Rightarrow> sim_error + (parcel list \<times> target list \<times> int)" where
  "ticks heightMapImage [] ps ts sc = Inr (ps, ts, sc)"
| "ticks heightMapImage (dt # dts) ps ts sc =
     (case update_parcels dt heightMapImage ps ts sc of
        Inl e \<Rightarrow> Inl e
      | Inr (ps', ts', sc') \<Rightarrow> ticks heightMapImage dts ps' ts' sc')"

section \<open>The main loop\<close>

text \<open>
  What \<^verbatim>\<open>main\<close> receives from outside: the height-map image and the three meshes it
  copies into parcels and targets (their texture handles come from OpenGL), and per frame
  the window events, the elapsed time and the keys held down. Camera and drawing read the
  state and do not change it; they are left out.
\<close>

record assets =
  heightMapImage :: image
  parcelMesh :: mesh
  houseBody :: mesh
  houseRoof :: mesh

datatype event = Closed | KeyPressedC | KeyPressedP | OtherEvent

record frame_input =
  frame_events :: "event list"
  frame_dt :: real
  key_W :: bool
  key_S :: bool
  key_D :: bool
  key_A :: bool
  key_Space :: bool
  key_LControl :: bool

record sim_state =
  airshipPos :: vec3
  treePos :: vec3
  targets :: "target list"
  parcels :: "parcel list"
  aimMode :: bool
  score :: int

definition cross :: "vec3 \<Rightarrow> vec3 \<Rightarrow> vec3" where
  "cross a b = Vec3 (vec_y a * vec_z b - vec_y b * vec_z a)
                    (vec_z a * vec_x b - vec_z b * vec_x a)
                    (vec_x a * vec_y b - vec_x b * vec_y a)"

text \<open>The target setup loop (lines 459 to 464).\<close>

function setup_targets :: "assets \<Rightarrow> int \<Rightarrow> target list \<Rightarrow> sim_error + target list" where
  "setup_targets a i ts =
     (if i < 5 then
        (let tx = of_int i * 15 - 30;
             tz = of_int i * 10 - 20
         in case getTerrainHeight tx tz (heightMapImage a) terrainScale terrainHeightScale of
              Inl e \<Rightarrow> Inl e
            | Inr ty \<Rightarrow>
                setup_targets a (i + 1)
                  (ts @ [new_target (Vec3 tx (ty + 2) tz) (houseBody a) (houseRoof a)]))
      else Inr ts)"
  by pat_completeness auto
termination
  by (relation "measure (\<lambda>(a, i, ts). nat (5 - i))") auto

declare setup_targets.simps [simp del]

definition init_state :: "assets \<Rightarrow> sim_error + sim_state" where
  "init_state a =
     (case getTerrainHeight 20 20 (heightMapImage a) terrainScale terrainHeightScale of
        Inl e \<Rightarrow> Inl e
      | Inr h \<Rightarrow>
          (case setup_targets a 0 [] of
             Inl e \<Rightarrow> Inl e
           | Inr ts \<Rightarrow>
               Inr \<lparr>airshipPos = Vec3 0 30 0, treePos = Vec3 20 h 20, targets = ts,
                    parcels = [], aimMode = False, score = 0\<rparr>))"

fun handle_event :: "assets \<Rightarrow> event \<Rightarrow> sim_state \<Rightarrow> sim_state" where
  "handle_event a KeyPressedC st = st\<lparr>aimMode := \<not> aimMode st\<rparr>"
| "handle_event a KeyPressedP st =
     st\<lparr>parcels := parcels st @
          [new_parcel (vec_add (airshipPos st) (Vec3 0 (- 4) 0)) (parcelMesh a)]\<rparr>"
| "handle_event a Closed st = st"
| "handle_event a OtherEvent st = st"

definition controls :: "frame_input \<Rightarrow> sim_state \<Rightarrow> sim_state" where
  "controls inp st =
     (let speed = 15;
          forward = Vec3 0 0 (- 1);
          right = normalize_vec (cross forward (Vec3 0 1 0));
          dt = frame_dt inp;
          pos = airshipPos st;
          pos = (if key_W inp then vec_add pos (vec_scale (vec_scale forward speed) dt) else pos);
          pos = (if key_S inp then vec_sub pos (vec_scale (vec_scale forward speed) dt) else pos);
          pos = (if key_D inp then vec_add pos (vec_scale (vec_scale right speed) dt) else pos);
          pos = (if key_A inp then vec_sub pos (vec_scale (vec_scale right speed) dt) else pos);
          pos = (if key_Space inp then Vec3 (vec_x pos) (vec_y pos + speed * dt) (vec_z pos) else pos);
          pos = (if key_LControl inp then Vec3 (vec_x pos) (vec_y pos - speed * dt) (vec_z pos) else pos)
      in st\<lparr>airshipPos := pos\<rparr>)"

text \<open>One pass of the \<^verbatim>\<open>while\<close> loop: the events, the controls, the update loop.\<close>

definition frame :: "assets \<Rightarrow> frame_input \<Rightarrow> sim_state \<Rightarrow> sim_error + sim_state" where
  "frame a inp st =
     (let st1 = fold (handle_event a) (frame_events inp) st;
          st2 = controls inp st1
      in case update_parcels (frame_dt inp) (heightMapImage a) (parcels st2) (targets st2) (score st2) of
           Inl e \<Rightarrow> Inl e
         | Inr (ps, ts, sc) \<Rightarrow> Inr (st2\<lparr>parcels := ps, targets := ts, score := sc\<rparr>))"

fun run :: "assets \<Rightarrow> frame_input list \<Rightarrow> sim_state \<Rightarrow> sim_error + sim_state" where
  "run a [] st = Inr st"
| "run a (inp # inps) st =
     (case frame a inp st of
        Inl e \<Rightarrow> Inl e
      | Inr st' \<Rightarrow> run a inps st')"

definition main_run :: "assets \<Rightarrow> frame_input list \<Rightarrow> sim_error + sim_state" where
  "main_run a inps =
     (case init_state a of
        Inl e \<Rightarrow> Inl e
      | Inr st \<Rightarrow> run a inps st)"

section \<open>The fall of one parcel, and sample scenes\<close>

text \<open>The position of a parcel that is integrated once for each elapsed time of a list, in
  turn: where it is after that many ticks if it neither lands nor hits a target.\<close>

fun fall :: "real list \<Rightarrow> parcel \<Rightarrow> parcel" where
  "fall [] p = p"
| "fall (dt # dts) p = fall dts (integrate dt p)"

definition count_inactive :: "target list \<Rightarrow> nat" where
  "count_inactive ts = length (filter (\<lambda>t. \<not> target.active t) ts)"

text \<open>What a step does to targets and score: no target is added, removed or reactivated,
  and the score grows by the number of targets that the step deactivates.\<close>

definition score_step :: "target list \<Rightarrow> int \<Rightarrow> target list \<Rightarrow> int \<Rightarrow> bool" where
  "score_step ts sc ts' sc' \<longleftrightarrow>
     length ts' = length ts \<and> count_inactive ts \<le> count_inactive ts'
     \<and> sc' = sc + (int (count_inactive ts') - int (count_inactive ts))"

definition score_inv :: "sim_state \<Rightarrow> bool" where
  "score_inv st \<longleftrightarrow>
     score st = int (count_inactive (targets st)) \<and> length (targets st) = 5"

text \<open>
  Notions for comparing two orders of the parcel list. A parcel is \<open>vertical\<close> when it
  has no lateral velocity, as with the gravity vector of the struct. It is \<open>near\<close> a
  target when their horizontal distance is below the sum of the radii, which it must be
  for a hit. Parcels and targets are \<open>separated\<close> when every parcel is vertical and near at
  most one place of the target list. A parcel is \<open>above_ground\<close> when its integrated position is
  over the ground, so that the tick tests it against the targets. It is \<open>spent\<close> when no
  target near it is active, and \<open>useful\<close> when it is active and not spent.
\<close>

definition vertical :: "parcel \<Rightarrow> bool" where
  "vertical p \<longleftrightarrow> vec_x (parcel.velocity p) = 0 \<and> vec_z (parcel.velocity p) = 0"

definition near :: "parcel \<Rightarrow> target \<Rightarrow> bool" where
  "near p t \<longleftrightarrow>
     0 < parcel.radius p + target.radius t
     \<and> (vec_x (target.position t) - vec_x (parcel.position p))\<^sup>2
       + (vec_z (target.position t) - vec_z (parcel.position p))\<^sup>2
         < (parcel.radius p + target.radius t)\<^sup>2"

definition separated :: "parcel list \<Rightarrow> target list \<Rightarrow> bool" where
  "separated ps ts \<longleftrightarrow>
     (\<forall>p \<in> set ps. vertical p
        \<and> (\<forall>i < length ts. \<forall>j < length ts. near p (ts ! i) \<and> near p (ts ! j) \<longrightarrow> i = j))"

definition above_ground :: "real \<Rightarrow> image \<Rightarrow> parcel \<Rightarrow> bool" where
  "above_ground dt hm p \<longleftrightarrow>
     (\<exists>h. getTerrainHeight (vec_x (parcel.position (integrate dt p)))
             (vec_z (parcel.position (integrate dt p))) hm terrainScale terrainHeightScale = Inr h
          \<and> h < vec_y (parcel.position (integrate dt p)))"

definition spent :: "target list \<Rightarrow> parcel \<Rightarrow> bool" where
  "spent ts p \<longleftrightarrow> (\<forall>t \<in> set ts. near p t \<longrightarrow> \<not> target.active t)"

definition useful :: "target list \<Rightarrow> parcel list \<Rightarrow> parcel set" where
  "useful ts ps = {p \<in> set ps. parcel.active p \<and> \<not> spent ts p}"

text \<open>The targets after a tick, when the parcels and targets are separated: a target is
  deactivated when some active parcel of the set \<open>U\<close> is above the ground and hits it.\<close>

definition hit_by :: "real \<Rightarrow> image \<Rightarrow> parcel set \<Rightarrow> target \<Rightarrow> bool" where
  "hit_by dt hm U t \<longleftrightarrow>
     (\<exists>p \<in> U. parcel.active p \<and> above_ground dt hm p \<and> hits (integrate dt p) t)"

definition deactivate_if :: "(target \<Rightarrow> bool) \<Rightarrow> target \<Rightarrow> target" where
  "deactivate_if P t = (if target.active t \<and> P t then t\<lparr>target.active := False\<rparr> else t)"

text \<open>The results, after a tick, of the parcels that were active when it started.\<close>

definition results_of_active :: "parcel list \<Rightarrow> parcel list \<Rightarrow> parcel list" where
  "results_of_active ps ps' = map snd (filter (\<lambda>(p, p'). parcel.active p) (zip ps ps'))"

text \<open>A height map that has loaded: it has pixels, four bytes for each.\<close>

definition loaded :: "image \<Rightarrow> bool" where
  "loaded img \<longleftrightarrow>
     0 < size_x img \<and> 0 < size_y img
     \<and> length (pixels img) = 4 * unat (size_x img) * unat (size_y img)"

text \<open>Images of one pixel: the image that failed to load, a black one (elevation 0
  everywhere) and a red one (elevation 10 everywhere inside the map).\<close>

definition empty_image :: image where
  "empty_image = \<lparr>size_x = 0, size_y = 0, pixels = []\<rparr>"

definition black_image :: image where
  "black_image = \<lparr>size_x = 1, size_y = 1, pixels = [0, 0, 0, 255]\<rparr>"

definition red_image :: image where
  "red_image = \<lparr>size_x = 1, size_y = 1, pixels = [255, 0, 0, 255]\<rparr>"


definition no_mesh :: mesh where
  "no_mesh = \<lparr>vertices = [], indices = [], texture = 0, normalMap = 0\<rparr>"

definition sample_assets :: assets where
  "sample_assets =
     \<lparr>heightMapImage = black_image, parcelMesh = no_mesh, houseBody = no_mesh, houseRoof = no_mesh\<rparr>"

text \<open>The five targets that \<^verbatim>\<open>main\<close> sets up over flat ground of elevation 0.\<close>

definition sample_targets :: "target list" where
  "sample_targets =
     [new_target (Vec3 (- 30) 2 (- 20)) no_mesh no_mesh,
      new_target (Vec3 (- 15) 2 (- 10)) no_mesh no_mesh,
      new_target (Vec3 0 2 0) no_mesh no_mesh,
      new_target (Vec3 15 2 10) no_mesh no_mesh,
      new_target (Vec3 30 2 20) no_mesh no_mesh]"

text \<open>The layout of \<^verbatim>\<open>main\<close>: parcels of radius 0.5 that fall vertically, and targets of
  radius 2.5 whose \<open>x\<close> coordinates are 15 apart. A parcel is near at most one of them.\<close>

definition main_layout :: "parcel list \<Rightarrow> target list \<Rightarrow> bool" where
  "main_layout ps ts \<longleftrightarrow>
     (\<forall>p \<in> set ps. vertical p \<and> parcel.radius p = 1/2)
     \<and> (\<forall>i < length ts. vec_x (target.position (ts ! i)) = 15 * real i - 30
                          \<and> target.radius (ts ! i) = 5/2)"

text \<open>Two states of \<^verbatim>\<open>main\<close> that differ at most in their parcel lists, both with the layout
  of \<^verbatim>\<open>main\<close>, and with the same useful parcels.\<close>

definition agree_but_order :: "sim_state \<Rightarrow> sim_state \<Rightarrow> bool" where
  "agree_but_order st1 st2 \<longleftrightarrow>
     airshipPos st2 = airshipPos st1 \<and> treePos st2 = treePos st1
     \<and> targets st2 = targets st1 \<and> aimMode st2 = aimMode st1 \<and> score st2 = score st1
     \<and> main_layout (parcels st1) (targets st1) \<and> main_layout (parcels st2) (targets st1)
     \<and> useful (targets st1) (parcels st2) = useful (targets st1) (parcels st1)"

text \<open>Frames of half a second: one in which the key P drops a parcel, one without events.\<close>

definition drop_frame :: frame_input where
  "drop_frame = \<lparr>frame_events = [KeyPressedP], frame_dt = 1/2, key_W = False, key_S = False,
                  key_D = False, key_A = False, key_Space = False, key_LControl = False\<rparr>"

definition idle_frame :: frame_input where
  "idle_frame = \<lparr>frame_events = [], frame_dt = 1/2, key_W = False, key_S = False,
                  key_D = False, key_A = False, key_Space = False, key_LControl = False\<rparr>"

text \<open>A frame of a fifth of a second in which the key P drops a parcel while the airship
  descends, and the state that \<^verbatim>\<open>main\<close> is in after that frame and a \<open>drop_frame\<close>: two
  parcels, one 1.04 above the other, over the middle target.\<close>

definition descend_drop_frame :: frame_input where
  "descend_drop_frame =
     \<lparr>frame_events = [KeyPressedP], frame_dt = 1/5, key_W = False, key_S = False,
      key_D = False, key_A = False, key_Space = False, key_LControl = True\<rparr>"

definition two_parcels_state :: sim_state where
  "two_parcels_state =
     \<lparr>airshipPos = Vec3 0 27 0, treePos = Vec3 20 0 20,
      targets = sample_targets,
      parcels = [new_parcel (Vec3 0 19.14 0) no_mesh, new_parcel (Vec3 0 18.1 0) no_mesh],
      aimMode = False, score = 0\<rparr>"

section \<open>Counting lemmas\<close>

lemma smod_nonneg_pos:
  fixes a b :: int
  assumes "0 \<le> a" "0 < b"
  shows "a smod b = a mod b"
  using assms by (simp add: smod_int_alt_def sgn_if)

lemma next_in_range:
  fixes i segments :: int
  assumes "0 \<le> i" "i < segments"
  shows "0 \<le> (i + 1) smod segments" "(i + 1) smod segments < segments"
  using assms by (simp_all add: smod_nonneg_pos)

lemma unat_u32_less:
  assumes "0 \<le> k" "k < int n"
  shows "unat (u32 k) < n"
proof -
  have "uint (u32 k) = k mod 2 ^ 32"
    by (simp add: u32_def uint_word_of_int)
  also have "\<dots> \<le> k"
    using assms(1) by (simp add: zmod_le_nonneg_dividend)
  finally have lt: "uint (u32 k) < int n"
    using assms(2) by linarith
  have nn: "0 \<le> uint (u32 k)"
    by simp
  from nn lt have "nat (uint (u32 k)) < n"
    by (simp only: nat_less_iff)
  then show ?thesis
    by (simp only: unat_eq_nat_uint)
qed

lemma length_cone_vertices:
  "length (cone_vertices rad height segments angleStep i vs) =
     length vs + 28 * nat (segments - i)"
proof (induction rad height segments angleStep i vs rule: cone_vertices.induct)
  case (1 rad height segments angleStep i vs)
  show ?case
  proof (cases "i < segments")
    case True
    have "nat (segments - i) = Suc (nat (segments - (i + 1)))"
      using True by linarith
    with True "1.IH" show ?thesis
      by (subst cone_vertices.simps) (simp add: Let_def)
  next
    case False
    then show ?thesis
      by (subst cone_vertices.simps) simp
  qed
qed

lemma length_cone_base_indices:
  "length (cone_base_indices segments i ixs) = length ixs + 3 * nat (segments - i)"
proof (induction segments i ixs rule: cone_base_indices.induct)
  case (1 segments i ixs)
  show ?case
  proof (cases "i < segments")
    case True
    have "nat (segments - i) = Suc (nat (segments - (i + 1)))"
      using True by linarith
    with True "1.IH" show ?thesis
      by (subst cone_base_indices.simps) simp
  next
    case False
    then show ?thesis
      by (subst cone_base_indices.simps) simp
  qed
qed

lemma length_cone_side_indices:
  "length (cone_side_indices segments i ixs) = length ixs + 3 * nat (segments - i)"
proof (induction segments i ixs rule: cone_side_indices.induct)
  case (1 segments i ixs)
  show ?case
  proof (cases "i < segments")
    case True
    have "nat (segments - i) = Suc (nat (segments - (i + 1)))"
      using True by linarith
    with True "1.IH" show ?thesis
      by (subst cone_side_indices.simps) simp
  next
    case False
    then show ?thesis
      by (subst cone_side_indices.simps) simp
  qed
qed

lemma cone_base_indices_bound:
  assumes "0 \<le> i" "2 + 2 * segments \<le> int n" "\<forall>w \<in> set ixs. unat w < n"
  shows "\<forall>w \<in> set (cone_base_indices segments i ixs). unat w < n"
  using assms
proof (induction segments i ixs rule: cone_base_indices.induct)
  case (1 segments i ixs)
  show ?case
  proof (cases "i < segments")
    case True
    note nx = next_in_range [OF "1.prems"(1) True]
    have a: "unat (u32 0) < n"
      using "1.prems"(1,2) True by (intro unat_u32_less) auto
    have b: "unat (u32 (2 + i * 2)) < n"
      using "1.prems"(1,2) True by (intro unat_u32_less) auto
    have c: "unat (u32 (2 + ((i + 1) smod segments) * 2)) < n"
      using "1.prems"(2) nx by (intro unat_u32_less) auto
    have "\<forall>w \<in> set (cone_base_indices segments (i + 1)
             (ixs @ [u32 0, u32 (2 + i * 2), u32 (2 + ((i + 1) smod segments) * 2)])). unat w < n"
      using True "1.prems" a b c by (intro "1.IH") auto
    with True show ?thesis
      by (subst cone_base_indices.simps) simp
  next
    case False
    with "1.prems"(3) show ?thesis
      by (subst cone_base_indices.simps) simp
  qed
qed

lemma cone_side_indices_bound:
  assumes "0 \<le> i" "2 + 2 * segments \<le> int n" "\<forall>w \<in> set ixs. unat w < n"
  shows "\<forall>w \<in> set (cone_side_indices segments i ixs). unat w < n"
  using assms
proof (induction segments i ixs rule: cone_side_indices.induct)
  case (1 segments i ixs)
  show ?case
  proof (cases "i < segments")
    case True
    note nx = next_in_range [OF "1.prems"(1) True]
    have a: "unat (u32 1) < n"
      using "1.prems"(1,2) True by (intro unat_u32_less) auto
    have b: "unat (u32 (2 + ((i + 1) smod segments) * 2 + 1)) < n"
      using "1.prems"(2) nx by (intro unat_u32_less) auto
    have c: "unat (u32 (2 + i * 2 + 1)) < n"
      using "1.prems"(1,2) True by (intro unat_u32_less) auto
    have "\<forall>w \<in> set (cone_side_indices segments (i + 1)
             (ixs @ [u32 1, u32 (2 + ((i + 1) smod segments) * 2 + 1), u32 (2 + i * 2 + 1)])).
            unat w < n"
      using True "1.prems" a b c by (intro "1.IH") auto
    with True show ?thesis
      by (subst cone_side_indices.simps) simp
  next
    case False
    with "1.prems"(3) show ?thesis
      by (subst cone_side_indices.simps) simp
  qed
qed

lemma length_cylinder_vertices:
  "length (cylinder_vertices rad height segments angleStep i vs) =
     length vs + 56 * nat (segments - i)"
proof (induction rad height segments angleStep i vs rule: cylinder_vertices.induct)
  case (1 rad height segments angleStep i vs)
  show ?case
  proof (cases "i < segments")
    case True
    have "nat (segments - i) = Suc (nat (segments - (i + 1)))"
      using True by linarith
    with True "1.IH" show ?thesis
      by (subst cylinder_vertices.simps) (simp add: Let_def)
  next
    case False
    then show ?thesis
      by (subst cylinder_vertices.simps) simp
  qed
qed

lemma length_cylinder_indices:
  "length (cylinder_indices baseOffset segments i ixs) = length ixs + 12 * nat (segments - i)"
proof (induction baseOffset segments i ixs rule: cylinder_indices.induct)
  case (1 baseOffset segments i ixs)
  show ?case
  proof (cases "i < segments")
    case True
    have "nat (segments - i) = Suc (nat (segments - (i + 1)))"
      using True by linarith
    with True "1.IH" show ?thesis
      by (subst cylinder_indices.simps) (simp add: Let_def)
  next
    case False
    then show ?thesis
      by (subst cylinder_indices.simps) simp
  qed
qed

lemma cylinder_indices_step:
  assumes "i < segments"
  shows "cylinder_indices baseOffset segments i ixs =
         cylinder_indices baseOffset segments (i + 1)
           (ixs @ [u32 0, u32 (baseOffset + i * 4), u32 (baseOffset + (i + 1) smod segments * 4),
                   u32 1, u32 (baseOffset + (i + 1) smod segments * 4 + 1),
                   u32 (baseOffset + i * 4 + 1),
                   u32 (baseOffset + i * 4 + 2), u32 (baseOffset + (i + 1) smod segments * 4 + 3),
                   u32 (baseOffset + i * 4 + 3),
                   u32 (baseOffset + i * 4 + 2), u32 (baseOffset + (i + 1) smod segments * 4 + 2),
                   u32 (baseOffset + (i + 1) smod segments * 4 + 3)])"
  using assms by (subst cylinder_indices.simps) (simp add: Let_def)

lemma cylinder_indices_stop:
  assumes "\<not> i < segments"
  shows "cylinder_indices baseOffset segments i ixs = ixs"
  using assms by (subst cylinder_indices.simps) simp

lemma cylinder_indices_bound:
  assumes "0 \<le> i" "2 + 4 * segments \<le> int n" "\<forall>w \<in> set ixs. unat w < n"
  shows "\<forall>w \<in> set (cylinder_indices 2 segments i ixs). unat w < n"
  using assms
proof (induction k \<equiv> "nat (segments - i)" arbitrary: i ixs)
  case 0
  then have "\<not> i < segments"
    by simp
  with "0.prems"(3) show ?case
    by (simp add: cylinder_indices_stop)
next
  case (Suc k)
  then have lt: "i < segments"
    by linarith
  define nx where "nx = (i + 1) smod segments"
  have nx: "0 \<le> nx" "nx < segments"
    unfolding nx_def using next_in_range [OF Suc.prems(1) lt] by simp_all
  have c0: "unat (u32 0) < n" "unat (u32 1) < n"
    using Suc.prems(1,2) lt by (auto intro!: unat_u32_less)
  have ci: "unat (u32 (2 + i * 4)) < n" "unat (u32 (2 + i * 4 + 1)) < n"
    "unat (u32 (2 + i * 4 + 2)) < n" "unat (u32 (2 + i * 4 + 3)) < n"
    using Suc.prems(1,2) lt by (auto intro!: unat_u32_less)
  have cn: "unat (u32 (2 + nx * 4)) < n" "unat (u32 (2 + nx * 4 + 1)) < n"
    "unat (u32 (2 + nx * 4 + 2)) < n" "unat (u32 (2 + nx * 4 + 3)) < n"
    using Suc.prems(2) nx by (auto intro!: unat_u32_less)
  have k: "k = nat (segments - (i + 1))"
    using Suc.hyps(2) by linarith
  show ?case
    unfolding cylinder_indices_step [OF lt] nx_def [symmetric]
    by (rule Suc.hyps(1) [OF k]) (use Suc.prems c0 ci cn in simp_all)
qed

section \<open>Claims about generateCone\<close>

text \<open>
  Claim C8. For every \<open>segments \<ge> 3\<close>, \<open>generateCone rad height segments tex\<close> has
  exactly \<open>2 + 2 * segments\<close> vertices (14 floats each) and exactly \<open>6 * segments\<close>
  indices, and every index is less than the number of vertices.
\<close>

theorem generateCone_counts:
  assumes "3 \<le> segments"
  shows "length (vertices (generateCone rad height segments tex)) = 14 * nat (2 + 2 * segments)
       \<and> vertex_count (generateCone rad height segments tex) = nat (2 + 2 * segments)
       \<and> length (indices (generateCone rad height segments tex)) = nat (6 * segments)
       \<and> (\<forall>w \<in> set (indices (generateCone rad height segments tex)).
            unat w < vertex_count (generateCone rad height segments tex))"
proof -
  let ?m = "generateCone rad height segments tex"
  have len: "length (vertices ?m) = 14 * nat (2 + 2 * segments)"
    using assms by (simp add: generateCone_def Let_def length_cone_vertices nat_add_distrib nat_mult_distrib)
  then have vc: "vertex_count ?m = nat (2 + 2 * segments)"
    by (simp add: vertex_count_def)
  have ic: "length (indices ?m) = nat (6 * segments)"
    using assms
    by (simp add: generateCone_def Let_def length_cone_side_indices length_cone_base_indices
        nat_mult_distrib)
  have le: "2 + 2 * segments \<le> int (nat (2 + 2 * segments))"
    using assms by simp
  have "\<forall>w \<in> set (cone_base_indices segments 0 []). unat w < nat (2 + 2 * segments)"
    by (rule cone_base_indices_bound [OF _ le]) simp_all
  then have "\<forall>w \<in> set (cone_side_indices segments 0 (cone_base_indices segments 0 [])).
               unat w < nat (2 + 2 * segments)"
    by (rule cone_side_indices_bound [OF _ le, rotated]) simp
  then have bd: "\<forall>w \<in> set (indices ?m). unat w < vertex_count ?m"
    unfolding vc by (simp add: generateCone_def Let_def)
  from len vc ic bd show ?thesis
    by blast
qed

theorem generateCone_counts_witness:
  "(3::int) \<le> 4
   \<and> vertex_count (generateCone (7/2) 3 4 0) = 10
   \<and> length (indices (generateCone (7/2) 3 4 0)) = 24
   \<and> list_all (\<lambda>w. unat w < 10) (indices (generateCone (7/2) 3 4 0))"
  using generateCone_counts [of 4 "7/2" 3 0] by (auto simp: list_all_iff)

text \<open>The roof of a house, \<^verbatim>\<open>generateCone(3.5f, 3.0f, 4, houseTex)\<close>, has these indices.\<close>

lemma generateCone_roof_indices:
  "indices (generateCone (7/2) 3 4 0) =
     [0, 2, 4, 0, 4, 6, 0, 6, 8, 0, 8, 2, 1, 5, 3, 1, 7, 5, 1, 9, 7, 1, 3, 9]"
  by (simp add: generateCone_def Let_def cone_base_indices.simps cone_side_indices.simps
      u32_def smod_int_alt_def)

section \<open>Claims about generateCylinder\<close>

text \<open>
  Claim C3 as the specification states it gives the cylinder \<open>8 * segments\<close> indices. The
  loop appends twelve indices per segment (a bottom-cap triangle, a top-cap triangle and
  the two triangles of the side quad): with three segments the mesh has 36 indices, not 24.
\<close>

theorem generateCylinder_index_count_counterexample:
  "length (indices (generateCylinder (3/2) 15 3 0)) = 36
   \<and> length (indices (generateCylinder (3/2) 15 3 0)) \<noteq> 8 * 3"
  by (simp add: generateCylinder_def Let_def length_cylinder_indices)

text \<open>
  Claim C3, amended. For every \<open>segments \<ge> 3\<close>, \<open>generateCylinder rad height segments tex\<close>
  has exactly \<open>2 + 4 * segments\<close> vertices (14 floats each) and exactly \<open>12 * segments\<close>
  indices, and every index is less than the number of vertices.
\<close>

theorem generateCylinder_counts:
  assumes "3 \<le> segments"
  shows "length (vertices (generateCylinder rad height segments tex)) = 14 * nat (2 + 4 * segments)
       \<and> vertex_count (generateCylinder rad height segments tex) = nat (2 + 4 * segments)
       \<and> length (indices (generateCylinder rad height segments tex)) = nat (12 * segments)
       \<and> (\<forall>w \<in> set (indices (generateCylinder rad height segments tex)).
            unat w < vertex_count (generateCylinder rad height segments tex))"
proof -
  let ?m = "generateCylinder rad height segments tex"
  have len: "length (vertices ?m) = 14 * nat (2 + 4 * segments)"
    using assms
    by (simp add: generateCylinder_def Let_def length_cylinder_vertices nat_add_distrib
        nat_mult_distrib)
  then have vc: "vertex_count ?m = nat (2 + 4 * segments)"
    by (simp add: vertex_count_def)
  have ic: "length (indices ?m) = nat (12 * segments)"
    using assms by (simp add: generateCylinder_def Let_def length_cylinder_indices nat_mult_distrib)
  have le: "2 + 4 * segments \<le> int (nat (2 + 4 * segments))"
    using assms by simp
  have "\<forall>w \<in> set (cylinder_indices 2 segments 0 []). unat w < nat (2 + 4 * segments)"
    by (rule cylinder_indices_bound [OF _ le]) simp_all
  then have bd: "\<forall>w \<in> set (indices ?m). unat w < vertex_count ?m"
    unfolding vc by (simp add: generateCylinder_def Let_def)
  from len vc ic bd show ?thesis
    by blast
qed

text \<open>The trunk of the tree is \<^verbatim>\<open>generateCylinder(1.5f, 15.0f, 32, treeBarkTex)\<close>.\<close>

theorem generateCylinder_counts_witness:
  "(3::int) \<le> 32
   \<and> vertex_count (generateCylinder (3/2) 15 32 0) = 130
   \<and> length (indices (generateCylinder (3/2) 15 32 0)) = 384
   \<and> list_all (\<lambda>w. unat w < 130) (indices (generateCylinder (3/2) 15 32 0))"
  using generateCylinder_counts [of 32 "3/2" 15 0] by (auto simp: list_all_iff)

lemma generateCylinder_three_indices:
  "indices (generateCylinder (3/2) 15 3 0) =
     [0, 2, 6, 1, 7, 3, 4, 9, 5, 4, 8, 9,
      0, 6, 10, 1, 11, 7, 8, 13, 9, 8, 12, 13,
      0, 10, 2, 1, 3, 11, 12, 5, 13, 12, 4, 5]"
  by (simp add: generateCylinder_def Let_def cylinder_indices.simps u32_def smod_int_alt_def)

section \<open>Generators called with no segments\<close>

text \<open>
  Claim C5 as the specification states it has \<open>generateCone\<close> and \<open>generateCylinder\<close> fail
  with an error when \<open>segments = 0\<close>. Neither function (lines 184 to 255) has a statement
  that fails: no check of \<open>segments\<close>, no \<^verbatim>\<open>throw\<close>, \<^verbatim>\<open>assert\<close> or \<^verbatim>\<open>exit\<close>. The
  division \<^verbatim>\<open>2.0f * 3.14159f / segments\<close> is a float division, which does not trap, and its
  result is used only inside the loops; the integer remainder \<^verbatim>\<open>% segments\<close> is inside
  the loops too, which run zero times. So the model of either generator is a total function
  into meshes, and at \<open>segments = 0\<close> each call returns a mesh: two vertices, no index.
\<close>

theorem generators_zero_segments_counterexample:
  "vertex_count (generateCone 1 1 0 0) = 2 \<and> indices (generateCone 1 1 0 0) = []
   \<and> vertex_count (generateCylinder 1 1 0 0) = 2 \<and> indices (generateCylinder 1 1 0 0) = []"
  by (simp add: generateCone_def generateCylinder_def Let_def vertex_count_def
      cone_vertices.simps cone_base_indices.simps cone_side_indices.simps
      cylinder_vertices.simps cylinder_indices.simps)

text \<open>
  Claim C5, amended. Called with \<open>segments = 0\<close>, \<open>generateCone\<close> and \<open>generateCylinder\<close> do
  not fail: each returns the mesh that holds its two centre vertices and no index, with
  the texture handle it was given.
\<close>

theorem generators_zero_segments:
  "generateCone rad height 0 tex =
     \<lparr>vertices = [0, 0, 0, 0, -1, 0, 0.5, 0.5, 1, 0, 0, 0, 0, 1,
                  0, height, 0, 0, 1, 0, 0.5, 0.5, 1, 0, 0, 0, 0, 1],
      indices = [], texture = tex, normalMap = 0\<rparr>
   \<and> generateCylinder rad height 0 tex =
     \<lparr>vertices = [0, 0, 0, 0, -1, 0, 0.5, 0.5, 1, 0, 0, 0, 0, 1,
                  0, height, 0, 0, 1, 0, 0.5, 0.5, 1, 0, 0, 0, 0, 1],
      indices = [], texture = tex, normalMap = 0\<rparr>"
  by (simp add: generateCone_def generateCylinder_def Let_def cone_vertices.simps
      cone_base_indices.simps cone_side_indices.simps cylinder_vertices.simps
      cylinder_indices.simps)

section \<open>Claims about getTerrainHeight\<close>

text \<open>
  Claim C2 says that with an image that failed to load (size 0 by 0) every query returns
  0 and no pixel outside the image is read. Inside the map the code computes \<open>x = 0\<close>,
  finds \<open>x \<ge> 0\<close>, sets \<open>x\<close> to \<open>0 - 1\<close>, which is 4294967295 in \<^verbatim>\<open>unsigned int\<close>, and
  reads that pixel of an image without pixels. \<^verbatim>\<open>main\<close> makes this very call, with
  (20, 20), right after it has reported the failed load and gone on.
\<close>

theorem getTerrainHeight_empty_image_reads_out_of_range:
  "getTerrainHeight 20 20 empty_image terrainScale terrainHeightScale = Inl PixelOutOfRange
   \<and> (size_x empty_image - 1 = 4294967295)"
  by (simp add: getTerrainHeight_def Let_def float_to_uint_def uint_to_float_def u32_def
      getPixel_def empty_image_def terrainScale_def terrainHeightScale_def)

text \<open>With the image that failed to load, only the coordinates outside the map get 0.\<close>

lemma getTerrainHeight_empty_image:
  "getTerrainHeight wx wz empty_image tScale hScale =
     (if wx < - (100 * tScale / 2) \<or> wx > 100 * tScale / 2
         \<or> wz < - (100 * tScale / 2) \<or> wz > 100 * tScale / 2
      then Inr 0 else Inl PixelOutOfRange)"
  by (simp add: getTerrainHeight_def Let_def getPixel_def empty_image_def)








text \<open>Just inside the boundary the same height map gives its pixel, not 0.\<close>

lemma getTerrainHeight_inside_sample:
  "getTerrainHeight 99 0 red_image 2 10 = Inr 10"
  by (simp add: getTerrainHeight_def Let_def float_to_uint_def uint_to_float_def u32_def
      getPixel_def red_image_def)

section \<open>Lemmas about the update loop\<close>

lemma sqrt_less_iff_sq:
  fixes x r :: real
  assumes "0 \<le> x"
  shows "sqrt x < r \<longleftrightarrow> 0 < r \<and> x < r\<^sup>2"
proof (cases "0 < r")
  case True
  then have "sqrt x < r \<longleftrightarrow> sqrt x < sqrt (r\<^sup>2)"
    by simp
  also have "\<dots> \<longleftrightarrow> x < r\<^sup>2"
    by (rule real_sqrt_less_iff)
  finally show ?thesis
    using True by simp
next
  case False
  have "0 \<le> sqrt x"
    using assms by simp
  with False show ?thesis
    by linarith
qed

lemma dot_self_nonneg: "0 \<le> dot v v"
  by (simp add: dot_def)

lemma hits_iff:
  "hits p t \<longleftrightarrow>
     0 < parcel.radius p + target.radius t
     \<and> dot (vec_sub (target.position t) (parcel.position p))
            (vec_sub (target.position t) (parcel.position p))
         < (parcel.radius p + target.radius t)\<^sup>2"
  unfolding hits_def distance_def vec_length_def
  by (rule sqrt_less_iff_sq [OF dot_self_nonneg])

lemma hit_targets_no_hit:
  assumes "\<forall>m < length ts. \<not> (target.active (ts ! m) \<and> hits p (ts ! m))"
  shows "hit_targets p ts sc = (p, ts, sc)"
  using assms
proof (induction ts)
  case Nil
  then show ?case by simp
next
  case (Cons t ts)
  from Cons.prems have hd: "\<not> (target.active t \<and> hits p t)"
    by (metis length_Cons nth_Cons_0 zero_less_Suc)
  from Cons.prems have "\<forall>m < length ts. \<not> (target.active (ts ! m) \<and> hits p (ts ! m))"
    by (metis Suc_less_eq length_Cons nth_Cons_Suc)
  then have "hit_targets p ts sc = (p, ts, sc)"
    by (rule Cons.IH)
  with hd show ?case
    by auto
qed

lemma hit_targets_first_hit:
  assumes "k < length ts" "target.active (ts ! k)" "hits p (ts ! k)"
    "\<forall>m < k. \<not> (target.active (ts ! m) \<and> hits p (ts ! m))"
  shows "hit_targets p ts sc =
           (p\<lparr>parcel.active := False\<rparr>, ts[k := (ts ! k)\<lparr>target.active := False\<rparr>], sc + 1)"
  using assms
proof (induction ts arbitrary: k)
  case Nil
  then show ?case by simp
next
  case (Cons t ts)
  show ?case
  proof (cases k)
    case 0
    with Cons.prems show ?thesis
      by simp
  next
    case (Suc k')
    with Cons.prems have hd: "\<not> (target.active t \<and> hits p t)"
      by (metis nth_Cons_0 zero_less_Suc)
    have "\<forall>m < k'. \<not> (target.active (ts ! m) \<and> hits p (ts ! m))"
      using Cons.prems(4) Suc by (metis Suc_less_eq nth_Cons_Suc)
    with Cons.prems Suc
    have "hit_targets p ts sc =
            (p\<lparr>parcel.active := False\<rparr>, ts[k' := (ts ! k')\<lparr>target.active := False\<rparr>], sc + 1)"
      by (intro Cons.IH) simp_all
    with hd Suc show ?thesis
      by auto
  qed
qed

lemma first_hit_exists:
  assumes "i < length ts" "target.active (ts ! i)" "hits p (ts ! i)"
  shows "\<exists>k \<le> i. target.active (ts ! k) \<and> hits p (ts ! k)
           \<and> (\<forall>m < k. \<not> (target.active (ts ! m) \<and> hits p (ts ! m)))"
proof -
  define Q where "Q m \<longleftrightarrow> target.active (ts ! m) \<and> hits p (ts ! m)" for m
  have "Q i"
    using assms by (simp add: Q_def)
  then have "Q (LEAST m. Q m)" "(LEAST m. Q m) \<le> i" "\<forall>m < (LEAST m. Q m). \<not> Q m"
    by (auto intro: LeastI Least_le dest: not_less_Least)
  then show ?thesis
    unfolding Q_def by blast
qed

text \<open>Either no target is hit, or exactly the first active target in range is.\<close>

lemma hit_targets_cases:
  obtains (miss) "hit_targets p ts sc = (p, ts, sc)"
      "\<forall>m < length ts. \<not> (target.active (ts ! m) \<and> hits p (ts ! m))"
  | (hit) k where "k < length ts" "target.active (ts ! k)" "hits p (ts ! k)"
      "\<forall>m < k. \<not> (target.active (ts ! m) \<and> hits p (ts ! m))"
      "hit_targets p ts sc =
         (p\<lparr>parcel.active := False\<rparr>, ts[k := (ts ! k)\<lparr>target.active := False\<rparr>], sc + 1)"
proof (cases "\<exists>i < length ts. target.active (ts ! i) \<and> hits p (ts ! i)")
  case True
  then obtain i where "i < length ts" "target.active (ts ! i)" "hits p (ts ! i)"
    by blast
  from first_hit_exists [OF this] obtain k where k: "k \<le> i" "target.active (ts ! k)"
    "hits p (ts ! k)" "\<forall>m < k. \<not> (target.active (ts ! m) \<and> hits p (ts ! m))"
    by blast
  then have "k < length ts"
    using \<open>i < length ts\<close> by simp
  from this k(2,3,4) hit_targets_first_hit [OF this k(2,3,4)] show ?thesis
    by (rule hit)
next
  case False
  then have no: "\<forall>m < length ts. \<not> (target.active (ts ! m) \<and> hits p (ts ! m))"
    by blast
  from hit_targets_no_hit [OF this] no show ?thesis
    by (rule miss)
qed

lemma update_parcel_active:
  assumes "parcel.active p"
    "getTerrainHeight (vec_x (parcel.position (integrate dt p))) (vec_z (parcel.position (integrate dt p)))
       hm terrainScale terrainHeightScale = Inr h"
  shows "update_parcel dt hm p ts sc =
           (if vec_y (parcel.position (integrate dt p)) \<le> h
            then Inr ((integrate dt p)\<lparr>parcel.active := False\<rparr>, ts, sc)
            else Inr (hit_targets (integrate dt p) ts sc))"
  using assms by (simp add: update_parcel_def Let_def)

lemma integrate_simps [simp]:
  "parcel.velocity (integrate dt p) = parcel.velocity p"
  "parcel.radius (integrate dt p) = parcel.radius p"
  "parcel.active (integrate dt p) = parcel.active p"
  "parcel.mesh (integrate dt p) = parcel.mesh p"
  by (simp_all add: integrate_def)

lemma integrate_gravity:
  assumes "parcel.velocity p = Vec3 0 (- 9.8) 0"
  shows "parcel.position (integrate dt p) =
           Vec3 (vec_x (parcel.position p)) (vec_y (parcel.position p) - 9.8 * dt)
                (vec_z (parcel.position p))"
  using assms by (simp add: integrate_def vec_add_def vec_scale_def)


lemma terrain_black_origin:
  "getTerrainHeight 0 0 black_image terrainScale terrainHeightScale = Inr 0"
  by (simp add: getTerrainHeight_def Let_def float_to_uint_def uint_to_float_def u32_def
      getPixel_def black_image_def terrainScale_def terrainHeightScale_def)

section \<open>Claims about one parcel in one tick\<close>

text \<open>
  Claim C6. A parcel that is active, with the fixed gravity velocity \<open>(0, -9.8, 0)\<close> and so
  no lateral velocity, stands over the ground elevation \<open>h\<close> of its own \<open>(x, z)\<close> throughout.
  Its update in a tick makes it Landed (inactive, with targets and score as they were)
  exactly when the integrated height \<open>y - 9.8 * dt\<close> is at most \<open>h\<close>. In that tick the
  result is the integrated parcel, deactivated, whatever the targets are: no target is
  tested. In a tick that leaves it above \<open>h\<close> it stays active, or it hits a target and
  the score grows by one: it does not land. Since an inactive parcel is skipped, the tick
  in which it lands is the first in which the integrated position reaches the ground.
\<close>

theorem landed_iff_ground_reached:
  assumes "parcel.active p"
    and "parcel.velocity p = Vec3 0 (- 9.8) 0"
    and "getTerrainHeight (vec_x (parcel.position p)) (vec_z (parcel.position p)) hm
           terrainScale terrainHeightScale = Inr h"
  shows "\<exists>p' ts' sc'.
           update_parcel dt hm p ts sc = Inr (p', ts', sc')
         \<and> (\<not> parcel.active p' \<and> ts' = ts \<and> sc' = sc
              \<longleftrightarrow> vec_y (parcel.position p) - 9.8 * dt \<le> h)
         \<and> (vec_y (parcel.position p) - 9.8 * dt \<le> h \<longrightarrow>
              p' = p\<lparr>parcel.position :=
                        Vec3 (vec_x (parcel.position p)) (vec_y (parcel.position p) - 9.8 * dt)
                             (vec_z (parcel.position p)),
                      parcel.active := False\<rparr>)
         \<and> (h < vec_y (parcel.position p) - 9.8 * dt \<longrightarrow>
              (parcel.active p' \<and> ts' = ts \<and> sc' = sc) \<or> (\<not> parcel.active p' \<and> sc' = sc + 1))"
proof -
  let ?q = "integrate dt p"
  note pos = integrate_gravity [OF assms(2), of dt]
  have th: "getTerrainHeight (vec_x (parcel.position ?q)) (vec_z (parcel.position ?q)) hm
              terrainScale terrainHeightScale = Inr h"
    using assms(3) by (simp add: pos)
  note up = update_parcel_active [OF assms(1) th, of ts sc]
  show ?thesis
  proof (cases "vec_y (parcel.position p) - 9.8 * dt \<le> h")
    case True
    then have "update_parcel dt hm p ts sc = Inr (?q\<lparr>parcel.active := False\<rparr>, ts, sc)"
      using up by (simp add: pos)
    moreover have "?q\<lparr>parcel.active := False\<rparr> =
        p\<lparr>parcel.position :=
             Vec3 (vec_x (parcel.position p)) (vec_y (parcel.position p) - 9.8 * dt)
                  (vec_z (parcel.position p)),
           parcel.active := False\<rparr>"
      using assms(2) by (simp add: integrate_def vec_add_def vec_scale_def)
    ultimately show ?thesis
      using True by simp
  next
    case False
    then have res: "update_parcel dt hm p ts sc = Inr (hit_targets ?q ts sc)"
      using up by (simp add: pos)
    show ?thesis
    proof (cases rule: hit_targets_cases [of ?q ts sc])
      case miss
      with res False assms(1) show ?thesis
        by simp
    next
      case (hit k)
      with res False show ?thesis
        by simp
    qed
  qed
qed

theorem landed_iff_ground_reached_witness:
  "update_parcel 1 black_image (new_parcel (Vec3 0 5 0) no_mesh) [] 0 =
     Inr ((new_parcel (Vec3 0 (- 4.8) 0) no_mesh)\<lparr>parcel.active := False\<rparr>, [], 0)
   \<and> update_parcel (1/2) black_image (new_parcel (Vec3 0 5 0) no_mesh) [] 0 =
     Inr (new_parcel (Vec3 0 0.1 0) no_mesh, [], 0)"
proof -
  let ?p = "new_parcel (Vec3 0 5 0) no_mesh"
  have a: "parcel.active ?p" and v: "parcel.velocity ?p = Vec3 0 (- 9.8) 0"
    by (simp_all add: new_parcel_def)
  have g: "getTerrainHeight (vec_x (parcel.position ?p)) (vec_z (parcel.position ?p)) black_image
             terrainScale terrainHeightScale = Inr 0"
    by (simp add: new_parcel_def terrain_black_origin)
  from landed_iff_ground_reached [OF a v g, of 1 "[]" 0]
  have 1: "update_parcel 1 black_image ?p [] 0 =
     Inr ((new_parcel (Vec3 0 (- 4.8) 0) no_mesh)\<lparr>parcel.active := False\<rparr>, [], 0)"
    by (auto simp: new_parcel_def)
  from landed_iff_ground_reached [OF a v g, of "1/2" "[]" 0]
  have 2: "update_parcel (1/2) black_image ?p [] 0 = Inr (new_parcel (Vec3 0 0.1 0) no_mesh, [], 0)"
    by (auto simp: new_parcel_def update_parcel_def Let_def integrate_def vec_add_def vec_scale_def
        terrain_black_origin)
  from 1 2 show ?thesis
    by simp
qed

text \<open>
  Claim C7. One active parcel is above the ground after its integration and within hit
  range of two active targets, at places \<open>i < j\<close> of the target list. Then one tick
  deactivates exactly one target, the first active target in list order that is in range
  (it is at a place \<open>k \<le> i\<close>, so the target at \<open>j\<close> stays active), adds exactly 1 to the
  score, and deactivates the parcel at its integrated position.
\<close>

theorem first_target_in_order_is_hit:
  assumes "parcel.active p"
    and "getTerrainHeight (vec_x (parcel.position (integrate dt p)))
           (vec_z (parcel.position (integrate dt p))) hm terrainScale terrainHeightScale = Inr h"
    and "h < vec_y (parcel.position (integrate dt p))"
    and "i < j" "j < length ts"
    and "target.active (ts ! i)" "hits (integrate dt p) (ts ! i)"
    and "target.active (ts ! j)" "hits (integrate dt p) (ts ! j)"
  shows "\<exists>k \<le> i.
           target.active (ts ! k) \<and> hits (integrate dt p) (ts ! k)
         \<and> (\<forall>m < k. \<not> (target.active (ts ! m) \<and> hits (integrate dt p) (ts ! m)))
         \<and> update_parcels dt hm [p] ts sc =
             Inr ([(integrate dt p)\<lparr>parcel.active := False\<rparr>],
                  ts[k := (ts ! k)\<lparr>target.active := False\<rparr>], sc + 1)"
proof -
  let ?q = "integrate dt p"
  from assms have "i < length ts"
    by simp
  from first_hit_exists [OF this assms(6,7)]
  obtain k where k: "k \<le> i" "target.active (ts ! k)" "hits ?q (ts ! k)"
    "\<forall>m < k. \<not> (target.active (ts ! m) \<and> hits ?q (ts ! m))"
    by blast
  have "k < length ts"
    using k(1) \<open>i < length ts\<close> by simp
  from hit_targets_first_hit [OF this k(2,3,4)]
  have "hit_targets ?q ts sc =
          (?q\<lparr>parcel.active := False\<rparr>, ts[k := (ts ! k)\<lparr>target.active := False\<rparr>], sc + 1)" .
  then have "update_parcels dt hm [p] ts sc =
          Inr ([?q\<lparr>parcel.active := False\<rparr>], ts[k := (ts ! k)\<lparr>target.active := False\<rparr>], sc + 1)"
    using assms(3) by (simp add: update_parcel_active [OF assms(1,2)])
  with k show ?thesis
    by blast
qed

theorem first_target_in_order_is_hit_witness:
  "update_parcels (1/10) black_image [new_parcel (Vec3 0 4.98 0) no_mesh]
     [new_target (Vec3 0 2 0) no_mesh no_mesh, new_target (Vec3 1 2 0) no_mesh no_mesh] 0 =
   Inr ([(new_parcel (Vec3 0 4 0) no_mesh)\<lparr>parcel.active := False\<rparr>],
        [(new_target (Vec3 0 2 0) no_mesh no_mesh)\<lparr>target.active := False\<rparr>,
         new_target (Vec3 1 2 0) no_mesh no_mesh], 1)"
proof -
  let ?p = "new_parcel (Vec3 0 4.98 0) no_mesh"
  let ?ts = "[new_target (Vec3 0 2 0) no_mesh no_mesh, new_target (Vec3 1 2 0) no_mesh no_mesh]"
  have q: "integrate (1/10) ?p = new_parcel (Vec3 0 4 0) no_mesh"
    by (simp add: integrate_def new_parcel_def vec_add_def vec_scale_def)
  have a: "parcel.active ?p"
    by (simp add: new_parcel_def)
  have g: "getTerrainHeight (vec_x (parcel.position (integrate (1/10) ?p)))
           (vec_z (parcel.position (integrate (1/10) ?p))) black_image terrainScale terrainHeightScale
           = Inr 0"
    unfolding q by (simp add: new_parcel_def terrain_black_origin)
  have y: "0 < vec_y (parcel.position (integrate (1/10) ?p))"
    unfolding q by (simp add: new_parcel_def)
  have h0: "hits (integrate (1/10) ?p) (?ts ! 0)" and h1: "hits (integrate (1/10) ?p) (?ts ! 1)"
    unfolding q
    by (simp_all add: hits_iff new_parcel_def new_target_def vec_sub_def dot_def power2_eq_square)
  have a0: "target.active (?ts ! 0)" and a1: "target.active (?ts ! 1)"
    by (simp_all add: new_target_def)
  from first_target_in_order_is_hit [OF a g y _ _ a0 h0 a1 h1, of 0]
  show ?thesis
    unfolding q by auto
qed

section \<open>A loaded height map answers every query\<close>

lemma getPixel_loaded:
  assumes "loaded img" "x < size_x img" "y < size_y img"
  shows "\<exists>c. getPixel img x y = Inr c"
proof -
  have x: "unat x < unat (size_x img)" and y: "unat y < unat (size_y img)"
    using assms(2,3) by (simp_all add: word_less_nat_alt)
  have "unat y * unat (size_x img) + unat (size_x img) \<le> unat (size_y img) * unat (size_x img)"
    using y by (metis Suc_leI mult_Suc mult_le_mono1 add.commute)
  with x have "unat x + unat y * unat (size_x img) < unat (size_x img) * unat (size_y img)"
    by (simp add: mult.commute)
  then have "(unat x + unat y * unat (size_x img)) * 4 + 3 < length (pixels img)"
    using assms(1) by (simp add: loaded_def)
  with assms(2,3) show ?thesis
    by (simp add: getPixel_def Let_def)
qed

lemma clamp_less:
  fixes x n :: uint32
  assumes "0 < n"
  shows "(if x \<ge> n then n - 1 else x) < n"
proof (cases "x \<ge> n")
  case True
  have "n \<noteq> 0"
    using assms by auto
  then have "unat (n - 1) < unat n"
    by (rule measure_unat)
  then have "n - 1 < n"
    by (simp add: word_less_nat_alt)
  with True show ?thesis by simp
next
  case False
  then show ?thesis by simp
qed

lemma getTerrainHeight_cases:
  obtains (outside) "getTerrainHeight wx wz hm tScale hScale = Inr 0"
  | (inside) x y where "0 < size_x hm \<Longrightarrow> x < size_x hm" "0 < size_y hm \<Longrightarrow> y < size_y hm"
      "getTerrainHeight wx wz hm tScale hScale =
         (case getPixel hm x y of Inl e \<Rightarrow> Inl e
          | Inr c \<Rightarrow> Inr ((real (unat (col_r c)) / 255) * hScale))"
proof (cases "wx < - (100 * tScale / 2) \<or> wx > 100 * tScale / 2
            \<or> wz < - (100 * tScale / 2) \<or> wz > 100 * tScale / 2")
  case True
  then have "getTerrainHeight wx wz hm tScale hScale = Inr 0"
    by (simp add: getTerrainHeight_def Let_def)
  then show ?thesis
    by (rule outside)
next
  case False
  define x where "x = float_to_uint ((wx + 100 * tScale / 2) / (100 * tScale) * uint_to_float (size_x hm))"
  define y where "y = float_to_uint ((wz + 100 * tScale / 2) / (100 * tScale) * uint_to_float (size_y hm))"
  define x' where "x' = (if x \<ge> size_x hm then size_x hm - 1 else x)"
  define y' where "y' = (if y \<ge> size_y hm then size_y hm - 1 else y)"
  have 1: "x' < size_x hm" if "0 < size_x hm"
    unfolding x'_def using that by (simp only: clamp_less)
  have 2: "y' < size_y hm" if "0 < size_y hm"
    unfolding y'_def using that by (simp only: clamp_less)
  have 3: "getTerrainHeight wx wz hm tScale hScale =
          (case getPixel hm x' y' of Inl e \<Rightarrow> Inl e
           | Inr c \<Rightarrow> Inr ((real (unat (col_r c)) / 255) * hScale))"
    using False unfolding getTerrainHeight_def Let_def x'_def y'_def x_def y_def
    by simp
  from 1 2 3 show ?thesis
    by (rule inside)
qed

lemma getTerrainHeight_loaded:
  assumes "loaded hm"
  shows "\<exists>h. getTerrainHeight wx wz hm tScale hScale = Inr h"
proof (cases rule: getTerrainHeight_cases [of wx wz hm tScale hScale])
  case outside
  then show ?thesis
    by (rule exI)
next
  case (inside x y)
  from assms have "0 < size_x hm" "0 < size_y hm"
    by (simp_all add: loaded_def)
  then have "x < size_x hm" "y < size_y hm"
    by (simp_all add: inside(1,2))
  from getPixel_loaded [OF assms this] obtain c where "getPixel hm x y = Inr c"
    by blast
  with inside(3) have "getTerrainHeight wx wz hm tScale hScale
                       = Inr ((real (unat (col_r c)) / 255) * hScale)"
    by simp
  then show ?thesis
    by (rule exI)
qed

lemma terrain_black:
  "getTerrainHeight wx wz black_image tScale hScale = Inr 0"
proof (cases rule: getTerrainHeight_cases [of wx wz black_image tScale hScale])
  case outside
  then show ?thesis .
next
  case (inside x y)
  then have "x < 1" "y < 1"
    by (simp_all add: black_image_def)
  then have "x = 0" "y = 0"
    by (simp_all add: word_less_1)
  with inside(3) show ?thesis
    by (simp add: getPixel_def black_image_def)
qed

lemma update_parcel_loaded:
  assumes "loaded hm"
  shows "\<exists>r. update_parcel dt hm p ts sc = Inr r"
proof (cases "parcel.active p")
  case False
  then show ?thesis
    by (simp add: update_parcel_def)
next
  case True
  from getTerrainHeight_loaded [OF assms] obtain h where
    "getTerrainHeight (vec_x (parcel.position (integrate dt p)))
       (vec_z (parcel.position (integrate dt p))) hm terrainScale terrainHeightScale = Inr h"
    by blast
  from update_parcel_active [OF True this, of ts sc]
  have "update_parcel dt hm p ts sc =
          Inr (if vec_y (parcel.position (integrate dt p)) \<le> h
               then ((integrate dt p)\<lparr>parcel.active := False\<rparr>, ts, sc)
               else hit_targets (integrate dt p) ts sc)"
    by simp
  then show ?thesis
    by (rule exI)
qed

lemma update_parcels_loaded:
  assumes "loaded hm"
  shows "\<exists>r. update_parcels dt hm ps ts sc = Inr r"
proof (induction ps arbitrary: ts sc)
  case Nil
  show ?case by simp
next
  case (Cons p ps)
  from update_parcel_loaded [OF assms] obtain p' ts' sc' where
    1: "update_parcel dt hm p ts sc = Inr (p', ts', sc')"
    by (metis prod_cases3)
  from Cons.IH obtain ps' ts'' sc'' where
    2: "update_parcels dt hm ps ts' sc' = Inr (ps', ts'', sc'')"
    by (metis prod_cases3)
  from 1 2 show ?case
    by simp
qed

lemma update_parcel_inactive:
  assumes "\<not> parcel.active p"
  shows "update_parcel dt hm p ts sc = Inr (p, ts, sc)"
  using assms by (simp add: update_parcel_def)

lemma update_parcels_ConsE:
  assumes "update_parcels dt hm (p # ps) ts sc = Inr (qs, ts2, sc2)"
  obtains p' ts1 sc1 ps' where "update_parcel dt hm p ts sc = Inr (p', ts1, sc1)"
    "update_parcels dt hm ps ts1 sc1 = Inr (ps', ts2, sc2)" "qs = p' # ps'"
  using assms by (auto split: sum.splits prod.splits)

section \<open>Claims about a whole tick\<close>

lemma update_parcels_all_inactive:
  assumes "list_all (\<lambda>p. \<not> parcel.active p) ps"
  shows "update_parcels dt hm ps ts sc = Inr (ps, ts, sc)"
  using assms by (induction ps) (simp_all add: update_parcel_inactive)

lemma update_parcels_without_inactive:
  assumes "update_parcels dt hm ps ts sc = Inr (ps', ts', sc')"
  shows "update_parcels dt hm (filter parcel.active ps) ts sc
           = Inr (results_of_active ps ps', ts', sc')"
  using assms
proof (induction ps arbitrary: ts sc ps')
  case Nil
  then show ?case
    by (simp add: results_of_active_def)
next
  case (Cons p ps)
  from Cons.prems obtain p' ts1 sc1 qs where
    1: "update_parcel dt hm p ts sc = Inr (p', ts1, sc1)"
    and 2: "update_parcels dt hm ps ts1 sc1 = Inr (qs, ts', sc')"
    and 3: "ps' = p' # qs"
    by (rule update_parcels_ConsE)
  note ih = Cons.IH [OF 2]
  show ?case
  proof (cases "parcel.active p")
    case True
    with 1 ih 3 show ?thesis
      by (simp add: results_of_active_def)
  next
    case False
    from update_parcel_inactive [OF False, of dt hm ts sc] 1 have "ts1 = ts" "sc1 = sc"
      by simp_all
    with False ih 3 show ?thesis
      by (simp add: results_of_active_def)
  qed
qed

lemma loaded_black_image: "loaded black_image"
  by (simp add: loaded_def black_image_def)

text \<open>
  Claim C10. A parcel that is inactive when a tick starts is skipped: its update returns
  the parcel, the targets and the score as they were, whatever the height map is, so it is
  neither integrated nor tested against the ground or a target. A tick returns as many
  parcels as it was given, each at its place in the list, with every parcel that was
  inactive unchanged in position, velocity and active flag (still false); the targets and
  the score it returns are those of the tick over the active parcels alone, and a tick
  over inactive parcels only changes nothing. With a loaded height map the tick does return.
\<close>

theorem inactive_parcel_unchanged:
  "(loaded hm \<longrightarrow> (\<exists>r. update_parcels dt hm ps ts sc = Inr r))
   \<and> (\<forall>ps' ts' sc'. update_parcels dt hm ps ts sc = Inr (ps', ts', sc') \<longrightarrow>
        length ps' = length ps
        \<and> (\<forall>i < length ps. \<not> parcel.active (ps ! i) \<longrightarrow>
               ps' ! i = ps ! i
             \<and> parcel.position (ps' ! i) = parcel.position (ps ! i)
             \<and> parcel.velocity (ps' ! i) = parcel.velocity (ps ! i)
             \<and> \<not> parcel.active (ps' ! i))
        \<and> update_parcels dt hm (filter parcel.active ps) ts sc
            = Inr (results_of_active ps ps', ts', sc'))
   \<and> (\<forall>p. \<not> parcel.active p \<longrightarrow> update_parcel dt hm p ts sc = Inr (p, ts, sc))
   \<and> (list_all (\<lambda>p. \<not> parcel.active p) ps \<longrightarrow> update_parcels dt hm ps ts sc = Inr (ps, ts, sc))"
proof -
  have a: "length ps' = length ps
        \<and> (\<forall>i < length ps. \<not> parcel.active (ps ! i) \<longrightarrow> ps' ! i = ps ! i)"
    if "update_parcels dt hm ps ts sc = Inr (ps', ts', sc')" for ps' ts' sc'
    using that
  proof (induction ps arbitrary: ts sc ps')
    case Nil
    then show ?case by simp
  next
    case (Cons p ps)
    from Cons.prems obtain p' ts1 sc1 qs where
      1: "update_parcel dt hm p ts sc = Inr (p', ts1, sc1)"
      and 2: "update_parcels dt hm ps ts1 sc1 = Inr (qs, ts', sc')"
      and 3: "ps' = p' # qs"
      by (rule update_parcels_ConsE)
    note ih = Cons.IH [OF 2]
    have hd: "p' = p" if "\<not> parcel.active p"
      using 1 update_parcel_inactive [OF that, of dt hm ts sc] by simp
    show ?case
    proof (intro conjI allI impI)
      show "length ps' = length (p # ps)"
        using 3 ih by simp
    next
      fix i
      assume "i < length (p # ps)" "\<not> parcel.active ((p # ps) ! i)"
      then show "ps' ! i = (p # ps) ! i"
        using 3 ih hd by (cases i) auto
    qed
  qed
  have b: "update_parcels dt hm (filter parcel.active ps) ts sc
            = Inr (results_of_active ps ps', ts', sc')"
    if "update_parcels dt hm ps ts sc = Inr (ps', ts', sc')" for ps' ts' sc'
    using that by (rule update_parcels_without_inactive)
  have c: "update_parcel dt hm p ts sc = Inr (p, ts, sc)" if "\<not> parcel.active p" for p
    using that by (rule update_parcel_inactive)
  have d: "update_parcels dt hm ps ts sc = Inr (ps, ts, sc)"
    if "list_all (\<lambda>p. \<not> parcel.active p) ps"
    using that by (rule update_parcels_all_inactive)
  have e: "\<exists>r. update_parcels dt hm ps ts sc = Inr r" if "loaded hm"
    using that by (rule update_parcels_loaded)
  from a b c d e show ?thesis
    by auto
qed

theorem inactive_parcel_unchanged_witness:
  "\<exists>ps'.
     update_parcels (1/2) black_image
       [(new_parcel (Vec3 0 2 0) no_mesh)\<lparr>parcel.active := False\<rparr>, new_parcel (Vec3 0 26 0) no_mesh]
       sample_targets 0 = Inr (ps', sample_targets, 0)
     \<and> length ps' = 2
     \<and> ps' ! 0 = (new_parcel (Vec3 0 2 0) no_mesh)\<lparr>parcel.active := False\<rparr>
     \<and> update_parcel (1/2) empty_image ((new_parcel (Vec3 0 2 0) no_mesh)\<lparr>parcel.active := False\<rparr>)
           sample_targets 0
         = Inr ((new_parcel (Vec3 0 2 0) no_mesh)\<lparr>parcel.active := False\<rparr>, sample_targets, 0)"
proof -
  let ?dead = "(new_parcel (Vec3 0 2 0) no_mesh)\<lparr>parcel.active := False\<rparr>"
  let ?live = "new_parcel (Vec3 0 26 0) no_mesh"
  let ?ps = "[?dead, ?live]"
  note th = inactive_parcel_unchanged [of black_image "1/2" ?ps sample_targets 0]
  from th loaded_black_image obtain ps' ts' sc' where
    r: "update_parcels (1/2) black_image ?ps sample_targets 0 = Inr (ps', ts', sc')"
    by (metis prod_cases3)
  have d: "\<not> parcel.active (?ps ! 0)" "0 < length ?ps"
    by simp_all
  with th r have 1: "length ps' = 2 \<and> ps' ! 0 = ?ps ! 0"
    by (metis length_Cons list.size(3) numeral_2_eq_2)
  from th r have "update_parcels (1/2) black_image (filter parcel.active ?ps) sample_targets 0
                  = Inr (results_of_active ?ps ps', ts', sc')"
    by blast
  moreover have "filter parcel.active ?ps = [?live]"
    by (simp add: new_parcel_def)
  moreover have "update_parcels (1/2) black_image [?live] sample_targets 0
                 = Inr ([new_parcel (Vec3 0 21.1 0) no_mesh], sample_targets, 0)"
    by (simp add: update_parcel_def integrate_def terrain_black Let_def sample_targets_def
        new_parcel_def new_target_def hits_iff vec_add_def vec_sub_def vec_scale_def dot_def
        power2_eq_square)
  ultimately have 2: "ts' = sample_targets" "sc' = 0"
    by simp_all
  have "\<not> parcel.active ?dead"
    by simp
  with inactive_parcel_unchanged [of empty_image "1/2" "[]" sample_targets 0]
  have 3: "update_parcel (1/2) empty_image ?dead sample_targets 0 = Inr (?dead, sample_targets, 0)"
    by blast
  from r 1 2 3 show ?thesis
    by simp
qed

section \<open>The score and the targets\<close>

lemma count_inactive_deactivate:
  assumes "k < length ts" "target.active (ts ! k)"
  shows "count_inactive (ts[k := (ts ! k)\<lparr>target.active := False\<rparr>]) = Suc (count_inactive ts)"
  using assms
proof (induction ts arbitrary: k)
  case Nil
  then show ?case by simp
next
  case (Cons t ts)
  show ?case
  proof (cases k)
    case 0
    with Cons.prems show ?thesis
      by (simp add: count_inactive_def)
  next
    case (Suc k')
    with Cons.prems have "count_inactive (ts[k' := (ts ! k')\<lparr>target.active := False\<rparr>])
                          = Suc (count_inactive ts)"
      by (intro Cons.IH) simp_all
    with Suc show ?thesis
      by (simp add: count_inactive_def)
  qed
qed

lemma score_step_refl: "score_step ts sc ts sc"
  by (simp add: score_step_def)

lemma score_step_trans:
  assumes "score_step ts sc ts1 sc1" "score_step ts1 sc1 ts2 sc2"
  shows "score_step ts sc ts2 sc2"
  using assms by (simp add: score_step_def)

lemma hit_targets_score_step:
  assumes "hit_targets p ts sc = (p', ts', sc')"
  shows "score_step ts sc ts' sc'"
proof (cases rule: hit_targets_cases [of p ts sc])
  case miss
  with assms show ?thesis
    by (simp add: score_step_def)
next
  case (hit k)
  from count_inactive_deactivate [OF hit(1,2)] hit(5) assms show ?thesis
    by (simp add: score_step_def)
qed

lemma update_parcel_score_step:
  assumes "update_parcel dt hm p ts sc = Inr (p', ts', sc')"
  shows "score_step ts sc ts' sc'"
  using assms hit_targets_score_step
  by (auto simp: update_parcel_def Let_def score_step_refl split: if_splits sum.splits)

lemma update_parcels_score_step:
  assumes "update_parcels dt hm ps ts sc = Inr (ps', ts', sc')"
  shows "score_step ts sc ts' sc'"
  using assms
proof (induction ps arbitrary: ts sc ps')
  case Nil
  then show ?case by (simp add: score_step_refl)
next
  case (Cons p ps)
  from Cons.prems obtain p' ts1 sc1 qs where
    1: "update_parcel dt hm p ts sc = Inr (p', ts1, sc1)"
    and 2: "update_parcels dt hm ps ts1 sc1 = Inr (qs, ts', sc')"
    by (rule update_parcels_ConsE)
  from update_parcel_score_step [OF 1] Cons.IH [OF 2] show ?case
    by (rule score_step_trans)
qed

lemma handle_event_frame [simp]:
  "targets (handle_event a e st) = targets st" "score (handle_event a e st) = score st"
  by (cases e; simp)+

lemma fold_handle_event_frame [simp]:
  "targets (fold (handle_event a) es st) = targets st"
  "score (fold (handle_event a) es st) = score st"
  by (induction es arbitrary: st) simp_all

lemma controls_frame [simp]:
  "targets (controls inp st) = targets st" "score (controls inp st) = score st"
  "parcels (controls inp st) = parcels st"
  by (simp_all add: controls_def Let_def)

lemma frame_score_step:
  assumes "frame a inp st = Inr st'"
  shows "score_step (targets st) (score st) (targets st') (score st')"
proof -
  let ?st2 = "controls inp (fold (handle_event a) (frame_events inp) st)"
  from assms obtain ps ts sc where
    u: "update_parcels (frame_dt inp) (heightMapImage a) (parcels ?st2) (targets ?st2) (score ?st2)
          = Inr (ps, ts, sc)"
    and st': "st' = ?st2\<lparr>parcels := ps, targets := ts, score := sc\<rparr>"
    by (auto simp: frame_def Let_def split: sum.splits)
  from update_parcels_score_step [OF u] st' show ?thesis
    by simp
qed

lemma setup_targets_result:
  assumes "setup_targets a i ts = Inr ts'" "i \<le> 5"
  shows "length ts' = length ts + nat (5 - i) \<and> count_inactive ts' = count_inactive ts"
  using assms
proof (induction k \<equiv> "nat (5 - i)" arbitrary: i ts)
  case 0
  then have "\<not> i < 5" by simp
  with "0.prems" show ?case
    by (subst (asm) setup_targets.simps) simp
next
  case (Suc k)
  then have lt: "i < 5" by linarith
  from Suc.prems(1) lt obtain ty where
    r: "setup_targets a (i + 1)
          (ts @ [new_target (Vec3 (of_int i * 15 - 30) (ty + 2) (of_int i * 10 - 20))
                   (houseBody a) (houseRoof a)]) = Inr ts'"
    by (subst (asm) setup_targets.simps) (auto simp: Let_def split: sum.splits)
  have k: "k = nat (5 - (i + 1))"
    using Suc.hyps(2) by linarith
  from Suc.hyps(1) [OF k r] lt Suc.hyps(2) show ?case
    by (simp add: count_inactive_def new_target_def)
qed

lemma init_state_targets:
  assumes "init_state a = Inr st"
  shows "score st = 0 \<and> length (targets st) = 5 \<and> count_inactive (targets st) = 0"
proof -
  from assms obtain h ts where ts: "setup_targets a 0 [] = Inr ts"
    and st: "st = \<lparr>airshipPos = Vec3 0 30 0, treePos = Vec3 20 h 20, targets = ts,
                    parcels = [], aimMode = False, score = 0\<rparr>"
    by (auto simp: init_state_def split: sum.splits)
  from setup_targets_result [OF ts] st show ?thesis
    by (simp add: count_inactive_def)
qed

lemma run_score_inv:
  assumes "run a inps st = Inr st'" "score_inv st"
  shows "score_inv st'"
  using assms
proof (induction inps arbitrary: st)
  case Nil
  then show ?case by simp
next
  case (Cons inp inps)
  from Cons.prems(1) obtain st1 where 1: "frame a inp st = Inr st1"
    and 2: "run a inps st1 = Inr st'"
    by (auto split: sum.splits)
  from frame_score_step [OF 1] Cons.prems(2) have "score_inv st1"
    by (simp add: score_inv_def score_step_def)
  with 2 show ?case
    by (rule Cons.IH)
qed

lemma count_inactive_le_length: "count_inactive ts \<le> length ts"
  by (simp add: count_inactive_def)

lemma setup_targets_loaded:
  assumes "loaded (heightMapImage a)"
  shows "\<exists>ts'. setup_targets a i ts = Inr ts'"
proof (induction k \<equiv> "nat (5 - i)" arbitrary: i ts)
  case 0
  then have "\<not> i < 5" by simp
  then show ?case
    by (subst setup_targets.simps) simp
next
  case (Suc k)
  then have lt: "i < 5" by linarith
  from getTerrainHeight_loaded [OF assms] obtain ty where
    ty: "getTerrainHeight (of_int i * 15 - 30) (of_int i * 10 - 20) (heightMapImage a)
           terrainScale terrainHeightScale = Inr ty"
    by blast
  have k: "k = nat (5 - (i + 1))"
    using Suc.hyps(2) by linarith
  from Suc.hyps(1) [OF k] obtain ts' where
    "setup_targets a (i + 1)
       (ts @ [new_target (Vec3 (of_int i * 15 - 30) (ty + 2) (of_int i * 10 - 20))
                (houseBody a) (houseRoof a)]) = Inr ts'"
    by blast
  with lt ty show ?case
    by (subst setup_targets.simps) (simp add: Let_def)
qed

lemma init_state_loaded:
  assumes "loaded (heightMapImage a)"
  shows "\<exists>st. init_state a = Inr st"
proof -
  from getTerrainHeight_loaded [OF assms] obtain h where
    "getTerrainHeight 20 20 (heightMapImage a) terrainScale terrainHeightScale = Inr h"
    by blast
  moreover from setup_targets_loaded [OF assms] obtain ts where "setup_targets a 0 [] = Inr ts"
    by blast
  ultimately show ?thesis
    by (simp add: init_state_def)
qed

lemma frame_loaded:
  assumes "loaded (heightMapImage a)"
  shows "\<exists>st'. frame a inp st = Inr st'"
proof -
  let ?st2 = "controls inp (fold (handle_event a) (frame_events inp) st)"
  from update_parcels_loaded [OF assms] obtain ps ts sc where
    "update_parcels (frame_dt inp) (heightMapImage a) (parcels ?st2) (targets ?st2) (score ?st2)
       = Inr (ps, ts, sc)"
    by (metis prod_cases3)
  then show ?thesis
    by (simp add: frame_def Let_def)
qed

lemma run_loaded:
  assumes "loaded (heightMapImage a)"
  shows "\<exists>st'. run a inps st = Inr st'"
proof (induction inps arbitrary: st)
  case Nil
  show ?case by simp
next
  case (Cons inp inps)
  from frame_loaded [OF assms] obtain st1 where "frame a inp st = Inr st1"
    by blast
  with Cons.IH [of st1] show ?case
    by simp
qed

lemma main_run_loaded:
  assumes "loaded (heightMapImage a)"
  shows "\<exists>st. main_run a inps = Inr st"
proof -
  from init_state_loaded [OF assms] obtain st0 where "init_state a = Inr st0"
    by blast
  with run_loaded [OF assms, of inps st0] show ?thesis
    by (simp add: main_run_def)
qed

lemma count_inactive_0_iff: "count_inactive ts = 0 \<longleftrightarrow> list_all target.active ts"
  by (induction ts) (simp_all add: count_inactive_def)

text \<open>
  Claim C9. \<^verbatim>\<open>main\<close> starts with score 0 and five targets, all active. After every
  frame, and so after every tick, the score equals the number of targets whose active flag
  is false; it is at least 0 and at most 5, the number of targets. A further frame never
  lowers it: it adds the number of targets that the frame deactivates. With a loaded
  height map every run of frames does reach such a state.
\<close>

theorem score_counts_deactivated_targets:
  "(loaded (heightMapImage a) \<longrightarrow> (\<exists>st. main_run a inps = Inr st))
   \<and> (\<forall>st0. init_state a = Inr st0 \<longrightarrow>
         score st0 = 0 \<and> length (targets st0) = 5 \<and> list_all target.active (targets st0))
   \<and> (\<forall>st. main_run a inps = Inr st \<longrightarrow>
         score st = int (count_inactive (targets st))
       \<and> length (targets st) = 5 \<and> 0 \<le> score st \<and> score st \<le> 5
       \<and> (\<forall>inp st'. frame a inp st = Inr st' \<longrightarrow>
             score st \<le> score st'
           \<and> score st' - score st
               = int (count_inactive (targets st')) - int (count_inactive (targets st))))"
proof (intro conjI allI impI)
  assume "loaded (heightMapImage a)"
  then show "\<exists>st. main_run a inps = Inr st"
    by (rule main_run_loaded)
next
  fix st0
  assume "init_state a = Inr st0"
  from init_state_targets [OF this]
  show "score st0 = 0" "length (targets st0) = 5" "list_all target.active (targets st0)"
    by (simp_all add: count_inactive_0_iff)
next
  fix st
  assume r: "main_run a inps = Inr st"
  then obtain st0 where 0: "init_state a = Inr st0" and 1: "run a inps st0 = Inr st"
    by (auto simp: main_run_def split: sum.splits)
  from init_state_targets [OF 0] have "score_inv st0"
    by (simp add: score_inv_def)
  with 1 have inv: "score_inv st"
    by (rule run_score_inv)
  then show "score st = int (count_inactive (targets st))" "length (targets st) = 5"
    by (simp_all add: score_inv_def)
  from inv show "0 \<le> score st"
    by (simp add: score_inv_def)
  from inv count_inactive_le_length [of "targets st"] show "score st \<le> 5"
    by (simp add: score_inv_def)
  fix inp st'
  assume "frame a inp st = Inr st'"
  from frame_score_step [OF this]
  show "score st \<le> score st'"
    "score st' - score st = int (count_inactive (targets st')) - int (count_inactive (targets st))"
    by (simp_all add: score_step_def)
qed


lemma init_sample:
  "init_state sample_assets =
     Inr \<lparr>airshipPos = Vec3 0 30 0, treePos = Vec3 20 0 20,
          targets = [new_target (Vec3 (- 30) 2 (- 20)) no_mesh no_mesh,
                     new_target (Vec3 (- 15) 2 (- 10)) no_mesh no_mesh,
                     new_target (Vec3 0 2 0) no_mesh no_mesh,
                     new_target (Vec3 15 2 10) no_mesh no_mesh,
                     new_target (Vec3 30 2 20) no_mesh no_mesh],
          parcels = [], aimMode = False, score = 0\<rparr>"
  by (simp add: init_state_def sample_assets_def terrain_black setup_targets.simps Let_def)

lemma sample_assets_simps:
  "heightMapImage sample_assets = black_image" "parcelMesh sample_assets = no_mesh"
  by (simp_all add: sample_assets_def)

lemma run_sample:
  "\<exists>st. main_run sample_assets [drop_frame, idle_frame, idle_frame, idle_frame, idle_frame] = Inr st
     \<and> score st = 1 \<and> count_inactive (targets st) = 1
     \<and> parcels st = [(new_parcel (Vec3 0 1.5 0) no_mesh)\<lparr>parcel.active := False\<rparr>]"
  by (simp add: main_run_def init_sample frame_def Let_def drop_frame_def idle_frame_def
      controls_def update_parcel_def integrate_def terrain_black sample_assets_simps
      new_parcel_def new_target_def hits_iff vec_add_def vec_sub_def vec_scale_def dot_def
      power2_eq_square count_inactive_def)


theorem score_counts_deactivated_targets_witness:
  "\<exists>st. main_run sample_assets [drop_frame, idle_frame, idle_frame, idle_frame, idle_frame] = Inr st
     \<and> score st = 1 \<and> count_inactive (targets st) = 1 \<and> score st \<le> 5"
proof -
  let ?inps = "[drop_frame, idle_frame, idle_frame, idle_frame, idle_frame]"
  note th = score_counts_deactivated_targets [of sample_assets ?inps]
  have "loaded (heightMapImage sample_assets)"
    by (simp add: sample_assets_simps loaded_black_image)
  with th obtain st where st: "main_run sample_assets ?inps = Inr st"
    by blast
  with th have inv: "score st = int (count_inactive (targets st))" "score st \<le> 5"
    by blast+
  from run_sample st have "score st = 1"
    by auto
  with st inv show ?thesis
    by auto
qed

section \<open>The order of the parcels\<close>

text \<open>
  The inner loop stops at the first active target in range (the \<^verbatim>\<open>break\<close> of line 504),
  so what the order of the parcels does depends on where the targets stand. With two
  targets 5 apart, which \<^verbatim>\<open>main\<close> never sets up, a parcel A in range of both and a parcel
  B in range of the first only, the order decides the score: A, B gives 1 and B, A gives 2.
  The targets of \<^verbatim>\<open>main\<close> stand 18 apart for a hit range of 3, and there the order
  decides nothing, as the rest of this section and the last section show.
\<close>

lemma close_targets_order_matters:
  "mset [new_parcel (Vec3 0 2.98 0) no_mesh, new_parcel (Vec3 2.5 2.98 0) no_mesh]
     = mset [new_parcel (Vec3 2.5 2.98 0) no_mesh, new_parcel (Vec3 0 2.98 0) no_mesh]
   \<and> ticks black_image [1/10, 1]
       [new_parcel (Vec3 2.5 2.98 0) no_mesh, new_parcel (Vec3 0 2.98 0) no_mesh]
       [new_target (Vec3 0 2 0) no_mesh no_mesh, new_target (Vec3 5 2 0) no_mesh no_mesh] 0
     = Inr ([(new_parcel (Vec3 2.5 2 0) no_mesh)\<lparr>parcel.active := False\<rparr>,
             (new_parcel (Vec3 0 (- 7.8) 0) no_mesh)\<lparr>parcel.active := False\<rparr>],
            [(new_target (Vec3 0 2 0) no_mesh no_mesh)\<lparr>target.active := False\<rparr>,
             new_target (Vec3 5 2 0) no_mesh no_mesh], 1)
   \<and> ticks black_image [1/10, 1]
       [new_parcel (Vec3 0 2.98 0) no_mesh, new_parcel (Vec3 2.5 2.98 0) no_mesh]
       [new_target (Vec3 0 2 0) no_mesh no_mesh, new_target (Vec3 5 2 0) no_mesh no_mesh] 0
     = Inr ([(new_parcel (Vec3 0 2 0) no_mesh)\<lparr>parcel.active := False\<rparr>,
             (new_parcel (Vec3 2.5 2 0) no_mesh)\<lparr>parcel.active := False\<rparr>],
            [(new_target (Vec3 0 2 0) no_mesh no_mesh)\<lparr>target.active := False\<rparr>,
             (new_target (Vec3 5 2 0) no_mesh no_mesh)\<lparr>target.active := False\<rparr>], 2)"
  by (simp add: update_parcel_def integrate_def terrain_black Let_def
      new_parcel_def new_target_def hits_iff vec_add_def vec_sub_def vec_scale_def dot_def
      power2_eq_square)

subsection \<open>Separated parcels and targets\<close>

lemma hits_near:
  assumes "hits p t"
  shows "near p t"
proof -
  from assms have r: "0 < parcel.radius p + target.radius t"
    and d: "dot (vec_sub (target.position t) (parcel.position p))
                (vec_sub (target.position t) (parcel.position p))
              < (parcel.radius p + target.radius t)\<^sup>2"
    by (simp_all add: hits_iff)
  have "(vec_x (target.position t) - vec_x (parcel.position p))\<^sup>2
        + (vec_z (target.position t) - vec_z (parcel.position p))\<^sup>2
        \<le> dot (vec_sub (target.position t) (parcel.position p))
              (vec_sub (target.position t) (parcel.position p))"
    by (simp add: dot_def vec_sub_def power2_eq_square)
  with r d show ?thesis
    by (simp add: near_def)
qed

lemma near_integrate:
  assumes "vertical p"
  shows "near (integrate dt p) t \<longleftrightarrow> near p t"
  using assms by (simp add: near_def vertical_def integrate_def vec_add_def vec_scale_def)

lemma near_flags [simp]:
  "near (p\<lparr>parcel.active := b\<rparr>) t \<longleftrightarrow> near p t"
  "near p (t\<lparr>target.active := c\<rparr>) \<longleftrightarrow> near p t"
  by (simp_all add: near_def)

lemma hits_flags [simp]:
  "hits (p\<lparr>parcel.active := b\<rparr>) t \<longleftrightarrow> hits p t"
  "hits p (t\<lparr>target.active := c\<rparr>) \<longleftrightarrow> hits p t"
  by (simp_all add: hits_def)

lemma vertical_simps [simp]:
  "vertical (p\<lparr>parcel.active := b\<rparr>) \<longleftrightarrow> vertical p"
  "vertical (integrate dt p) \<longleftrightarrow> vertical p"
  by (simp_all add: vertical_def)

lemma deactivate_if_simps [simp]:
  "near p (deactivate_if P t) \<longleftrightarrow> near p t"
  "hits p (deactivate_if P t) \<longleftrightarrow> hits p t"
  "target.active (deactivate_if P t) \<longleftrightarrow> target.active t \<and> \<not> P t"
  by (auto simp: deactivate_if_def)

lemma hit_by_deactivate_if [simp]:
  "hit_by dt hm U (deactivate_if P t) \<longleftrightarrow> hit_by dt hm U t"
  by (simp add: hit_by_def)

lemma deactivate_if_twice:
  assumes "\<And>b. Q (t\<lparr>target.active := b\<rparr>) = Q t"
  shows "deactivate_if Q (deactivate_if P t) = deactivate_if (\<lambda>t. P t \<or> Q t) t"
  using assms [of False] by (auto simp: deactivate_if_def)

text \<open>The inner loop, when the parcel is in range of at most one place of the list.\<close>

lemma hit_targets_map:
  assumes "\<forall>i < length ts. \<forall>j < length ts. hits q (ts ! i) \<and> hits q (ts ! j) \<longrightarrow> i = j"
  shows "fst (snd (hit_targets q ts sc)) = map (deactivate_if (hits q)) ts"
proof (cases rule: hit_targets_cases [of q ts sc])
  case miss
  then have "map (deactivate_if (hits q)) ts = ts"
    by (intro map_idI) (auto simp: deactivate_if_def in_set_conv_nth)
  with miss show ?thesis
    by simp
next
  case (hit k)
  have "ts[k := (ts ! k)\<lparr>target.active := False\<rparr>] = map (deactivate_if (hits q)) ts"
  proof (rule nth_equalityI)
    show "length (ts[k := (ts ! k)\<lparr>target.active := False\<rparr>]) = length (map (deactivate_if (hits q)) ts)"
      by simp
  next
    fix m
    assume "m < length (ts[k := (ts ! k)\<lparr>target.active := False\<rparr>])"
    then have m: "m < length ts"
      by simp
    show "ts[k := (ts ! k)\<lparr>target.active := False\<rparr>] ! m = map (deactivate_if (hits q)) ts ! m"
    proof (cases "m = k")
      case True
      with hit m show ?thesis
        by (simp add: deactivate_if_def)
    next
      case False
      with assms m hit(1,3) have "\<not> hits q (ts ! m)"
        by blast
      with False m show ?thesis
        by (simp add: deactivate_if_def)
    qed
  qed
  with hit show ?thesis
    by simp
qed

lemma hit_by_single:
  "hit_by dt hm {p} t \<longleftrightarrow> parcel.active p \<and> above_ground dt hm p \<and> hits (integrate dt p) t"
  by (simp add: hit_by_def)

lemma hit_by_insert:
  "hit_by dt hm (insert p U) t \<longleftrightarrow> hit_by dt hm {p} t \<or> hit_by dt hm U t"
  by (auto simp: hit_by_def)

lemma deactivate_if_never:
  assumes "\<And>t. \<not> P t"
  shows "map (deactivate_if P) ts = ts"
  using assms by (intro map_idI) (simp add: deactivate_if_def)

text \<open>What the update of one parcel does, case by case.\<close>

lemma update_parcel_cases:
  assumes "update_parcel dt hm p ts sc = Inr (p', ts', sc')"
  obtains (skipped) "\<not> parcel.active p" "p' = p" "ts' = ts" "sc' = sc"
  | (landed) "parcel.active p" "\<not> above_ground dt hm p"
      "p' = (integrate dt p)\<lparr>parcel.active := False\<rparr>" "ts' = ts" "sc' = sc"
  | (tested) "parcel.active p" "above_ground dt hm p"
      "(p', ts', sc') = hit_targets (integrate dt p) ts sc"
proof (cases "parcel.active p")
  case False
  with assms show ?thesis
    by (intro skipped) (simp_all add: update_parcel_def)
next
  case True
  with assms obtain h where
    h: "getTerrainHeight (vec_x (parcel.position (integrate dt p)))
          (vec_z (parcel.position (integrate dt p))) hm terrainScale terrainHeightScale = Inr h"
    by (auto simp: update_parcel_def Let_def split: sum.splits)
  note up = update_parcel_active [OF True h, of ts sc]
  show ?thesis
  proof (cases "vec_y (parcel.position (integrate dt p)) \<le> h")
    case le: True
    then have "\<not> above_ground dt hm p"
      using h by (auto simp: above_ground_def)
    with True assms up le show ?thesis
      by (intro landed) simp_all
  next
    case gt: False
    then have "above_ground dt hm p"
      using h by (auto simp: above_ground_def)
    with True assms up gt show ?thesis
      by (intro tested) simp_all
  qed
qed

lemma update_parcel_targets:
  assumes "update_parcel dt hm p ts sc = Inr (p', ts', sc')"
    and "vertical p"
    and "\<forall>i < length ts. \<forall>j < length ts. near p (ts ! i) \<and> near p (ts ! j) \<longrightarrow> i = j"
  shows "ts' = map (deactivate_if (hit_by dt hm {p})) ts"
  using assms(1)
proof (cases rule: update_parcel_cases)
  case skipped
  then show ?thesis
    by (simp add: hit_by_single deactivate_if_never)
next
  case landed
  then show ?thesis
    by (simp add: hit_by_single deactivate_if_never)
next
  case tested
  have "\<forall>i < length ts. \<forall>j < length ts.
          hits (integrate dt p) (ts ! i) \<and> hits (integrate dt p) (ts ! j) \<longrightarrow> i = j"
    using assms(3) hits_near near_integrate [OF assms(2)] by blast
  from hit_targets_map [OF this, of sc]
  have 1: "fst (snd (hit_targets (integrate dt p) ts sc))
           = map (deactivate_if (hits (integrate dt p))) ts" .
  from tested(3) have 2: "fst (snd (hit_targets (integrate dt p) ts sc)) = ts'"
    by (metis fst_conv snd_conv)
  have 3: "hit_by dt hm {p} = hits (integrate dt p)"
    using tested(1,2) by (intro ext) (simp add: hit_by_single)
  from 1 2 3 show ?thesis
    by simp
qed

lemma separated_Cons:
  "separated (p # ps) ts \<longleftrightarrow>
     (vertical p \<and> (\<forall>i < length ts. \<forall>j < length ts. near p (ts ! i) \<and> near p (ts ! j) \<longrightarrow> i = j))
     \<and> separated ps ts"
  by (auto simp: separated_def)

lemma separated_map_deactivate [simp]:
  "separated ps (map (deactivate_if P) ts) \<longleftrightarrow> separated ps ts"
  by (simp add: separated_def)

lemma hit_by_flags [simp]: "hit_by dt hm U (t\<lparr>target.active := b\<rparr>) \<longleftrightarrow> hit_by dt hm U t"
  by (simp add: hit_by_def)

lemma update_parcels_targets:
  assumes "update_parcels dt hm ps ts sc = Inr (ps', ts', sc')" "separated ps ts"
  shows "ts' = map (deactivate_if (hit_by dt hm (set ps))) ts"
  using assms
proof (induction ps arbitrary: ts sc ps')
  case Nil
  then show ?case
    by (simp add: deactivate_if_never hit_by_def)
next
  case (Cons p ps)
  from Cons.prems(1) obtain p' ts1 sc1 qs where
    1: "update_parcel dt hm p ts sc = Inr (p', ts1, sc1)"
    and 2: "update_parcels dt hm ps ts1 sc1 = Inr (qs, ts', sc')"
    by (rule update_parcels_ConsE)
  from Cons.prems(2) have sp: "vertical p"
    "\<forall>i < length ts. \<forall>j < length ts. near p (ts ! i) \<and> near p (ts ! j) \<longrightarrow> i = j"
    and sps: "separated ps ts"
    by (simp_all add: separated_Cons)
  from update_parcel_targets [OF 1 sp] have ts1: "ts1 = map (deactivate_if (hit_by dt hm {p})) ts" .
  with sps have "separated ps ts1"
    by simp
  from Cons.IH [OF 2 this] have "ts' = map (deactivate_if (hit_by dt hm (set ps))) ts1" .
  also have "\<dots> = map (\<lambda>t. deactivate_if (hit_by dt hm (set ps)) (deactivate_if (hit_by dt hm {p}) t)) ts"
    by (simp add: ts1 comp_def)
  also have "\<dots> = map (deactivate_if (\<lambda>t. hit_by dt hm {p} t \<or> hit_by dt hm (set ps) t)) ts"
    by (simp add: deactivate_if_twice)
  also have "(\<lambda>t. hit_by dt hm {p} t \<or> hit_by dt hm (set ps) t) = hit_by dt hm (set (p # ps))"
    by (intro ext) (simp add: hit_by_insert [of dt hm p "set ps"])
  finally show ?case .
qed

text \<open>Where the parcels of the list after a tick come from.\<close>

lemma update_parcel_origin:
  assumes "update_parcel dt hm p ts sc = Inr (p', ts', sc')"
  shows "p' = p \<or> p' = integrate dt p \<or> p' = (integrate dt p)\<lparr>parcel.active := False\<rparr>"
  using assms
proof (cases rule: update_parcel_cases)
  case tested
  then show ?thesis
    by (cases rule: hit_targets_cases [of "integrate dt p" ts sc]) auto
qed simp_all

lemma update_parcels_origin:
  assumes "update_parcels dt hm ps ts sc = Inr (ps', ts', sc')" "q \<in> set ps'"
  shows "\<exists>p \<in> set ps. q = p \<or> q = integrate dt p \<or> q = (integrate dt p)\<lparr>parcel.active := False\<rparr>"
  using assms
proof (induction ps arbitrary: ts sc ps')
  case Nil
  then show ?case by simp
next
  case (Cons p ps)
  from Cons.prems(1) obtain p' ts1 sc1 qs where
    1: "update_parcel dt hm p ts sc = Inr (p', ts1, sc1)"
    and 2: "update_parcels dt hm ps ts1 sc1 = Inr (qs, ts', sc')"
    and 3: "ps' = p' # qs"
    by (rule update_parcels_ConsE)
  from Cons.prems(2) 3 consider "q = p'" | "q \<in> set qs"
    by auto
  then show ?case
  proof cases
    case 1
    with update_parcel_origin [OF \<open>update_parcel dt hm p ts sc = Inr (p', ts1, sc1)\<close>]
    show ?thesis by auto
  next
    case 2
    from Cons.IH [OF \<open>update_parcels dt hm ps ts1 sc1 = Inr (qs, ts', sc')\<close> 2]
    show ?thesis by auto
  qed
qed

lemma update_parcel_active_result:
  assumes "update_parcel dt hm p ts sc = Inr (p', ts', sc')" "parcel.active p'"
  shows "parcel.active p \<and> above_ground dt hm p \<and> p' = integrate dt p"
  using assms(1)
proof (cases rule: update_parcel_cases)
  case skipped
  with assms(2) show ?thesis by simp
next
  case landed
  with assms(2) show ?thesis by simp
next
  case tested
  then show ?thesis
    using assms(2) by (cases rule: hit_targets_cases [of "integrate dt p" ts sc]) auto
qed

lemma update_parcels_active_result:
  assumes "update_parcels dt hm ps ts sc = Inr (ps', ts', sc')" "q \<in> set ps'" "parcel.active q"
  shows "\<exists>p \<in> set ps. parcel.active p \<and> above_ground dt hm p \<and> q = integrate dt p"
  using assms
proof (induction ps arbitrary: ts sc ps')
  case Nil
  then show ?case by simp
next
  case (Cons p ps)
  from Cons.prems(1) obtain p' ts1 sc1 qs where
    1: "update_parcel dt hm p ts sc = Inr (p', ts1, sc1)"
    and 2: "update_parcels dt hm ps ts1 sc1 = Inr (qs, ts', sc')"
    and 3: "ps' = p' # qs"
    by (rule update_parcels_ConsE)
  from Cons.prems(2) 3 consider "q = p'" | "q \<in> set qs"
    by auto
  then show ?case
  proof cases
    case 1
    with update_parcel_active_result [OF \<open>update_parcel dt hm p ts sc = Inr (p', ts1, sc1)\<close>]
      Cons.prems(3)
    show ?thesis by auto
  next
    case 2
    from Cons.IH [OF \<open>update_parcels dt hm ps ts1 sc1 = Inr (qs, ts', sc')\<close> 2 Cons.prems(3)]
    show ?thesis by auto
  qed
qed


lemma near_after_tick:
  assumes "vertical p" "q = p \<or> q = integrate dt p \<or> q = (integrate dt p)\<lparr>parcel.active := False\<rparr>"
  shows "near q t \<longleftrightarrow> near p t" "vertical q"
  using assms by (auto simp: near_integrate)

text \<open>A parcel that hits a target is spent afterwards: the target it hit was the only one
  near it.\<close>

lemma spent_after_hit:
  assumes "vertical p"
    and "\<forall>i < length ts. \<forall>j < length ts. near p (ts ! i) \<and> near p (ts ! j) \<longrightarrow> i = j"
    and "k < length ts" "hits (integrate dt p) (ts ! k)"
    and "length ts' = length ts"
    and "\<forall>i < length ts. near p (ts' ! i) = near p (ts ! i)"
    and "\<not> target.active (ts' ! k)"
  shows "spent ts' (integrate dt p)"
  unfolding spent_def
proof (intro ballI impI)
  fix t
  assume "t \<in> set ts'" "near (integrate dt p) t"
  then obtain j where j: "j < length ts" "t = ts' ! j"
    using assms(5) by (metis in_set_conv_nth)
  with \<open>near (integrate dt p) t\<close> have "near p (ts ! j)"
    using assms(1,6) by (simp add: near_integrate)
  moreover have "near p (ts ! k)"
    using assms(1,4) hits_near near_integrate by blast
  ultimately have "j = k"
    using assms(2,3) j(1) by blast
  with j assms(7) show "\<not> target.active t"
    by simp
qed

lemma update_parcels_keeps_useful:
  assumes "update_parcels dt hm ps ts sc = Inr (ps', ts', sc')" "separated ps ts"
    and "p \<in> set ps" "parcel.active p" "above_ground dt hm p" "\<not> spent ts' (integrate dt p)"
  shows "integrate dt p \<in> set ps'"
  using assms
proof (induction ps arbitrary: ts sc ps')
  case Nil
  then show ?case by simp
next
  case (Cons p0 ps)
  from Cons.prems(1) obtain p0' ts1 sc1 qs where
    1: "update_parcel dt hm p0 ts sc = Inr (p0', ts1, sc1)"
    and 2: "update_parcels dt hm ps ts1 sc1 = Inr (qs, ts', sc')"
    and 3: "ps' = p0' # qs"
    by (rule update_parcels_ConsE)
  from Cons.prems(2) have sp: "vertical p0"
    "\<forall>i < length ts. \<forall>j < length ts. near p0 (ts ! i) \<and> near p0 (ts ! j) \<longrightarrow> i = j"
    and sps: "separated ps ts"
    by (simp_all add: separated_Cons)
  from update_parcel_targets [OF 1 sp] have ts1: "ts1 = map (deactivate_if (hit_by dt hm {p0})) ts" .
  with sps have sps1: "separated ps ts1"
    by simp
  from update_parcels_targets [OF 2 sps1]
  have ts': "ts' = map (deactivate_if (hit_by dt hm (set ps))) ts1" .
  show ?case
  proof (cases "p \<in> set ps")
    case True
    from Cons.IH [OF 2 sps1 True Cons.prems(4,5,6)] 3 show ?thesis
      by simp
  next
    case False
    with Cons.prems(3) have p: "p = p0"
      by simp
    have "p0' = integrate dt p0"
      using 1
    proof (cases rule: update_parcel_cases)
      case skipped
      with Cons.prems(4) p show ?thesis by simp
    next
      case landed
      with Cons.prems(5) p show ?thesis by simp
    next
      case tested
      show ?thesis
      proof (cases rule: hit_targets_cases [of "integrate dt p0" ts sc])
        case miss
        with tested show ?thesis by simp
      next
        case (hit k)
        with tested have "ts1 = ts[k := (ts ! k)\<lparr>target.active := False\<rparr>]"
          by simp
        with hit(1) have "\<not> target.active (ts1 ! k)"
          by simp
        then have "\<not> target.active (ts' ! k)"
          using hit(1) by (simp add: ts' ts1)
        moreover have "length ts' = length ts" "\<forall>i < length ts. near p0 (ts' ! i) = near p0 (ts ! i)"
          by (simp_all add: ts' ts1)
        ultimately have "spent ts' (integrate dt p0)"
          using spent_after_hit [OF sp hit(1,3)] by blast
        with Cons.prems(6) p show ?thesis
          by simp
      qed
    qed
    with 3 p show ?thesis
      by simp
  qed
qed

lemma spent_transfer:
  assumes "vertical p" "\<not> spent (map (deactivate_if P) ts) (integrate dt p)"
  shows "\<not> spent ts p"
  using assms by (auto simp: spent_def near_integrate)

lemma useful_after_tick:
  assumes "update_parcels dt hm ps ts sc = Inr (ps', ts', sc')" "separated ps ts"
  shows "useful ts' ps' =
           integrate dt ` {p \<in> useful ts ps. above_ground dt hm p \<and> \<not> spent ts' (integrate dt p)}"
proof (intro set_eqI iffI)
  note ts' = update_parcels_targets [OF assms]
  fix q
  assume "q \<in> useful ts' ps'"
  then have q: "q \<in> set ps'" "parcel.active q" "\<not> spent ts' q"
    by (simp_all add: useful_def)
  from update_parcels_active_result [OF assms(1) q(1,2)] obtain p where
    p: "p \<in> set ps" "parcel.active p" "above_ground dt hm p" "q = integrate dt p"
    by blast
  from p(1) assms(2) have "vertical p"
    by (simp add: separated_def)
  with q(3) p(4) have "\<not> spent ts p"
    unfolding ts' by (simp add: spent_transfer)
  with p q(3) show "q \<in> integrate dt ` {p \<in> useful ts ps. above_ground dt hm p \<and> \<not> spent ts' (integrate dt p)}"
    by (simp add: useful_def)
next
  fix q
  assume "q \<in> integrate dt ` {p \<in> useful ts ps. above_ground dt hm p \<and> \<not> spent ts' (integrate dt p)}"
  then obtain p where p: "p \<in> set ps" "parcel.active p" "above_ground dt hm p"
    "\<not> spent ts' (integrate dt p)" "q = integrate dt p"
    by (auto simp: useful_def)
  from update_parcels_keeps_useful [OF assms p(1,2,3,4)] p show "q \<in> useful ts' ps'"
    by (simp add: useful_def)
qed

lemma targets_after_tick:
  assumes "update_parcels dt hm ps ts sc = Inr (ps', ts', sc')" "separated ps ts"
  shows "ts' = map (deactivate_if (hit_by dt hm (useful ts ps))) ts"
proof -
  have "deactivate_if (hit_by dt hm (set ps)) t = deactivate_if (hit_by dt hm (useful ts ps)) t"
    if t: "t \<in> set ts" for t
  proof (cases "target.active t")
    case False
    then show ?thesis
      by (simp add: deactivate_if_def)
  next
    case True
    have "hit_by dt hm (set ps) t \<longleftrightarrow> hit_by dt hm (useful ts ps) t"
    proof
      assume "hit_by dt hm (set ps) t"
      then obtain p where p: "p \<in> set ps" "parcel.active p" "above_ground dt hm p"
        "hits (integrate dt p) t"
        by (auto simp: hit_by_def)
      from p(1) assms(2) have "vertical p"
        by (simp add: separated_def)
      with p(4) have "near p t"
        using hits_near near_integrate by blast
      with True t have "\<not> spent ts p"
        by (auto simp: spent_def)
      with p show "hit_by dt hm (useful ts ps) t"
        by (auto simp: hit_by_def useful_def)
    next
      assume "hit_by dt hm (useful ts ps) t"
      then show "hit_by dt hm (set ps) t"
        by (auto simp: hit_by_def useful_def)
    qed
    then show ?thesis
      by (simp add: deactivate_if_def)
  qed
  then have "map (deactivate_if (hit_by dt hm (set ps))) ts
             = map (deactivate_if (hit_by dt hm (useful ts ps))) ts"
    by simp
  with update_parcels_targets [OF assms] show ?thesis
    by simp
qed

lemma separated_after_tick:
  assumes "update_parcels dt hm ps ts sc = Inr (ps', ts', sc')" "separated ps ts"
  shows "separated ps' ts'"
proof -
  note ts' = update_parcels_targets [OF assms]
  have "vertical q \<and> (\<forall>i < length ts. \<forall>j < length ts. near q (ts ! i) \<and> near q (ts ! j) \<longrightarrow> i = j)"
    if "q \<in> set ps'" for q
  proof -
    from update_parcels_origin [OF assms(1) that] obtain p where p: "p \<in> set ps"
      "q = p \<or> q = integrate dt p \<or> q = (integrate dt p)\<lparr>parcel.active := False\<rparr>"
      by blast
    from p(1) assms(2) have v: "vertical p"
      and u: "\<forall>i < length ts. \<forall>j < length ts. near p (ts ! i) \<and> near p (ts ! j) \<longrightarrow> i = j"
      by (simp_all add: separated_def)
    from near_after_tick [OF v p(2)] u show ?thesis
      by simp
  qed
  then have "separated ps' ts"
    by (simp add: separated_def)
  then show ?thesis
    unfolding ts' by simp
qed

lemma tick_congruence:
  assumes "update_parcels dt hm ps1 ts sc = Inr (ps1', ts1', sc1')"
    and "update_parcels dt hm ps2 ts sc = Inr (ps2', ts2', sc2')"
    and "separated ps1 ts" "separated ps2 ts" "useful ts ps1 = useful ts ps2"
  shows "ts1' = ts2' \<and> sc1' = sc2' \<and> useful ts1' ps1' = useful ts2' ps2'"
proof -
  from targets_after_tick [OF assms(1,3)] targets_after_tick [OF assms(2,4)] assms(5)
  have ts: "ts1' = ts2'"
    by simp
  from update_parcels_score_step [OF assms(1)] update_parcels_score_step [OF assms(2)] ts
  have sc: "sc1' = sc2'"
    by (simp add: score_step_def)
  from useful_after_tick [OF assms(1,3)] useful_after_tick [OF assms(2,4)] assms(5) ts
  have "useful ts1' ps1' = useful ts2' ps2'"
    by simp
  with ts sc show ?thesis
    by simp
qed

lemma ticks_loaded:
  assumes "loaded hm"
  shows "\<exists>r. ticks hm dts ps ts sc = Inr r"
proof (induction dts arbitrary: ps ts sc)
  case Nil
  show ?case by simp
next
  case (Cons dt dts)
  from update_parcels_loaded [OF assms] obtain ps' ts' sc' where
    "update_parcels dt hm ps ts sc = Inr (ps', ts', sc')"
    by (metis prod_cases3)
  with Cons.IH [of ps' ts' sc'] show ?case
    by simp
qed

lemma ticks_congruence:
  assumes "ticks hm dts ps1 ts sc = Inr (ps1', ts1', sc1')"
    and "ticks hm dts ps2 ts sc = Inr (ps2', ts2', sc2')"
    and "separated ps1 ts" "separated ps2 ts" "useful ts ps1 = useful ts ps2"
  shows "ts1' = ts2' \<and> sc1' = sc2'"
  using assms
proof (induction dts arbitrary: ps1 ps2 ts sc)
  case Nil
  then show ?case by simp
next
  case (Cons dt dts)
  from Cons.prems(1) obtain qs1 us1 c1 where
    a1: "update_parcels dt hm ps1 ts sc = Inr (qs1, us1, c1)"
    and b1: "ticks hm dts qs1 us1 c1 = Inr (ps1', ts1', sc1')"
    by (auto split: sum.splits)
  from Cons.prems(2) obtain qs2 us2 c2 where
    a2: "update_parcels dt hm ps2 ts sc = Inr (qs2, us2, c2)"
    and b2: "ticks hm dts qs2 us2 c2 = Inr (ps2', ts2', sc2')"
    by (auto split: sum.splits)
  from tick_congruence [OF a1 a2 Cons.prems(3,4,5)]
  have e1: "us2 = us1" and e2: "c2 = c1" and e3: "useful us1 qs1 = useful us2 qs2"
    by blast+
  from b2 e1 e2 have b2': "ticks hm dts qs2 us1 c1 = Inr (ps2', ts2', sc2')"
    by simp
  from separated_after_tick [OF a1 Cons.prems(3)] have s1: "separated qs1 us1" .
  from separated_after_tick [OF a2 Cons.prems(4)] e1 have s2: "separated qs2 us1"
    by simp
  from e3 e1 have e3': "useful us1 qs1 = useful us1 qs2"
    by simp
  from b1 b2' s1 s2 e3' show ?case
    by (rule Cons.IH)
qed

lemma ticks_all_inactive:
  assumes "list_all (\<lambda>p. \<not> parcel.active p) ps"
  shows "ticks hm dts ps ts sc = Inr (ps, ts, sc)"
  using assms by (induction dts) (simp_all add: update_parcels_all_inactive)

lemma ticks_append:
  "ticks hm (xs @ ys) ps ts sc =
     (case ticks hm xs ps ts sc of
        Inl e \<Rightarrow> Inl e
      | Inr (ps', ts', sc') \<Rightarrow> ticks hm ys ps' ts' sc')"
  by (induction xs arbitrary: ps ts sc) (auto split: sum.splits)

text \<open>Once all parcels are inactive, targets and score stay as they are.\<close>

lemma ticks_final_stable:
  assumes "ticks hm (take n dts) ps ts sc = Inr (ps', ts', sc')"
    and "list_all (\<lambda>p. \<not> parcel.active p) ps'" "n \<le> m"
  shows "ticks hm (take m dts) ps ts sc = Inr (ps', ts', sc')"
proof -
  have "take m dts = take n dts @ take (m - n) (drop n dts)"
    using assms(3) by (metis le_add_diff_inverse take_add)
  then show ?thesis
    using assms(1) ticks_all_inactive [OF assms(2)] by (simp add: ticks_append)
qed

lemma final_scores_agree:
  assumes "separated ps1 ts" "separated ps2 ts" "useful ts ps1 = useful ts ps2"
    and "ticks hm (take n dts) ps1 ts sc = Inr (psa, tsa, sca)"
      "list_all (\<lambda>p. \<not> parcel.active p) psa"
    and "ticks hm (take m dts) ps2 ts sc = Inr (psb, tsb, scb)"
      "list_all (\<lambda>p. \<not> parcel.active p) psb"
  shows "tsa = tsb \<and> sca = scb"
proof (cases "n \<le> m")
  case True
  from ticks_final_stable [OF assms(4,5) True]
  have "ticks hm (take m dts) ps1 ts sc = Inr (psa, tsa, sca)" .
  from ticks_congruence [OF this assms(6) assms(1,2,3)] show ?thesis .
next
  case False
  then have "m \<le> n" by simp
  from ticks_final_stable [OF assms(6,7) this]
  have "ticks hm (take n dts) ps2 ts sc = Inr (psb, tsb, scb)" .
  from ticks_congruence [OF assms(4) this assms(1,2,3)] show ?thesis .
qed

lemma near_x:
  assumes "near p t"
  shows "\<bar>vec_x (target.position t) - vec_x (parcel.position p)\<bar> < parcel.radius p + target.radius t"
proof -
  define a where "a = vec_x (target.position t) - vec_x (parcel.position p)"
  define b where "b = vec_z (target.position t) - vec_z (parcel.position p)"
  define r where "r = parcel.radius p + target.radius t"
  from assms have r: "0 < r" and s: "a\<^sup>2 + b\<^sup>2 < r\<^sup>2"
    by (simp_all add: near_def a_def b_def r_def)
  have "0 \<le> b\<^sup>2"
    by (rule zero_le_power2)
  with s have "a\<^sup>2 < r\<^sup>2"
    by linarith
  then have "\<bar>a\<bar>\<^sup>2 < r\<^sup>2"
    by (simp only: power2_abs)
  then have "\<bar>a\<bar> < r"
    by (rule power2_less_imp_less) (use r in simp)
  then show ?thesis
    by (simp only: a_def r_def)
qed

lemma main_layout_separated:
  assumes "main_layout ps ts"
  shows "separated ps ts"
  unfolding separated_def
proof (intro ballI conjI allI impI)
  fix p
  assume p: "p \<in> set ps"
  with assms show "vertical p"
    by (simp add: main_layout_def)
  fix i j
  assume ij: "i < length ts" "j < length ts" and n: "near p (ts ! i) \<and> near p (ts ! j)"
  from assms p have r: "parcel.radius p = 1/2"
    by (simp add: main_layout_def)
  from assms ij have xi: "vec_x (target.position (ts ! i)) = 15 * real i - 30"
    "target.radius (ts ! i) = 5/2"
    and xj: "vec_x (target.position (ts ! j)) = 15 * real j - 30" "target.radius (ts ! j) = 5/2"
    by (simp_all add: main_layout_def)
  from n near_x [of p "ts ! i"] near_x [of p "ts ! j"]
  have "\<bar>15 * real i - 30 - vec_x (parcel.position p)\<bar> < 3"
    "\<bar>15 * real j - 30 - vec_x (parcel.position p)\<bar> < 3"
    by (simp_all add: r xi xj)
  then have "\<bar>real i - real j\<bar> < 1"
    by linarith
  then show "i = j"
    by linarith
qed

lemma sample_targets_layout:
  assumes "i < length sample_targets"
  shows "vec_x (target.position (sample_targets ! i)) = 15 * real i - 30
       \<and> target.radius (sample_targets ! i) = 5/2"
proof -
  from assms have "i < 5"
    by (simp add: sample_targets_def)
  then consider "i = 0" | "i = 1" | "i = 2" | "i = 3" | "i = 4"
    by linarith
  then show ?thesis
    by cases (simp_all add: sample_targets_def new_target_def)
qed

lemma new_parcel_layout: "vertical (new_parcel pos m) \<and> parcel.radius (new_parcel pos m) = 1/2"
  by (simp add: new_parcel_def vertical_def)

text \<open>
  With a loaded height map, and parcels and targets that are separated, ticking the
  parcels in any other order gives, after any sequence of ticks, the same targets and the
  same score; and the score reached once all parcels are inactive is the same, whenever
  each of the two runs gets there.
\<close>

lemma separated_order_independent:
  assumes "loaded hm" "separated ps ts" "mset ps2 = mset ps"
  shows "(\<exists>ps' ps2' ts' sc'.
            ticks hm dts ps ts sc = Inr (ps', ts', sc')
          \<and> ticks hm dts ps2 ts sc = Inr (ps2', ts', sc'))
       \<and> (\<forall>n m psa tsa sca psb tsb scb.
            ticks hm (take n dts) ps ts sc = Inr (psa, tsa, sca)
          \<and> list_all (\<lambda>p. \<not> parcel.active p) psa
          \<and> ticks hm (take m dts) ps2 ts sc = Inr (psb, tsb, scb)
          \<and> list_all (\<lambda>p. \<not> parcel.active p) psb
          \<longrightarrow> sca = scb \<and> tsa = tsb)"
proof -
  from assms(3) have set: "set ps2 = set ps"
    by (rule mset_eq_setD)
  with assms(2) have sep2: "separated ps2 ts"
    by (simp add: separated_def)
  from set have us: "useful ts ps = useful ts ps2"
    by (simp add: useful_def)
  from ticks_loaded [OF assms(1)] obtain ps' ts' sc' where
    1: "ticks hm dts ps ts sc = Inr (ps', ts', sc')"
    by (metis prod_cases3)
  from ticks_loaded [OF assms(1)] obtain ps2' ts2' sc2' where
    2: "ticks hm dts ps2 ts sc = Inr (ps2', ts2', sc2')"
    by (metis prod_cases3)
  from ticks_congruence [OF 1 2 assms(2) sep2 us] 1 2
  have first: "\<exists>ps' ps2' ts' sc'.
            ticks hm dts ps ts sc = Inr (ps', ts', sc')
          \<and> ticks hm dts ps2 ts sc = Inr (ps2', ts', sc')"
    by auto
  have second: "sca = scb \<and> tsa = tsb"
    if "ticks hm (take n dts) ps ts sc = Inr (psa, tsa, sca)"
      "list_all (\<lambda>p. \<not> parcel.active p) psa"
      "ticks hm (take m dts) ps2 ts sc = Inr (psb, tsb, scb)"
      "list_all (\<lambda>p. \<not> parcel.active p) psb"
    for n m psa tsa sca psb tsb scb
    using final_scores_agree [OF assms(2) sep2 us that] by simp
  from first second show ?thesis
    by blast
qed


lemma separated_order_independent_sample:
  "\<exists>ps' ps2' ts'.
     ticks black_image [1/2, 1/2, 1/2, 1/2, 1/2, 1/2]
       [new_parcel (Vec3 0 26 0) no_mesh, new_parcel (Vec3 1 26 0) no_mesh] sample_targets 0
       = Inr (ps', ts', 1)
   \<and> ticks black_image [1/2, 1/2, 1/2, 1/2, 1/2, 1/2]
       [new_parcel (Vec3 1 26 0) no_mesh, new_parcel (Vec3 0 26 0) no_mesh] sample_targets 0
       = Inr (ps2', ts', 1)"
proof -
  let ?ps = "[new_parcel (Vec3 0 26 0) no_mesh, new_parcel (Vec3 1 26 0) no_mesh]"
  let ?ps2 = "[new_parcel (Vec3 1 26 0) no_mesh, new_parcel (Vec3 0 26 0) no_mesh]"
  let ?dts = "[1/2, 1/2, 1/2, 1/2, 1/2, 1/2 :: real]"
  have "main_layout ?ps sample_targets"
    using sample_targets_layout by (simp add: main_layout_def new_parcel_layout)
  then have sep: "separated ?ps sample_targets"
    by (rule main_layout_separated)
  have m: "mset ?ps2 = mset ?ps"
    by simp
  from separated_order_independent [OF loaded_black_image sep m, of ?dts 0]
  obtain ps' ps2' ts' sc' where
    1: "ticks black_image ?dts ?ps sample_targets 0 = Inr (ps', ts', sc')"
    and 2: "ticks black_image ?dts ?ps2 sample_targets 0 = Inr (ps2', ts', sc')"
    by blast
  have "\<exists>qs us. ticks black_image ?dts ?ps sample_targets 0 = Inr (qs, us, 1)"
    by (simp add: update_parcel_def integrate_def terrain_black Let_def sample_targets_def
        new_parcel_def new_target_def hits_iff vec_add_def vec_sub_def vec_scale_def dot_def
        power2_eq_square)
  with 1 have "sc' = 1"
    by auto
  with 1 2 show ?thesis
    by blast
qed

section \<open>One parcel over several ticks\<close>

text \<open>
  The landing of one parcel, over several ticks. While every tick leaves the integrated
  parcel above the ground and in range of no active target, it stays active and follows
  \<open>fall\<close>; the first tick whose integration brings it to the ground or below deactivates
  it at that position, with targets and score untouched, and later ticks leave it there.
\<close>

lemma fall_snoc: "fall (dts @ [dt]) p = integrate dt (fall dts p)"
  by (induction dts arbitrary: p) simp_all

lemma fall_active [simp]: "parcel.active (fall dts p) = parcel.active p"
  by (induction dts arbitrary: p) simp_all

lemma update_parcel_flies_on:
  assumes "parcel.active p" "above_ground dt hm p"
    "\<forall>t \<in> set ts. \<not> (target.active t \<and> hits (integrate dt p) t)"
  shows "update_parcels dt hm [p] ts sc = Inr ([integrate dt p], ts, sc)"
proof -
  from assms(2) obtain h where
    h: "getTerrainHeight (vec_x (parcel.position (integrate dt p)))
          (vec_z (parcel.position (integrate dt p))) hm terrainScale terrainHeightScale = Inr h"
    and y: "h < vec_y (parcel.position (integrate dt p))"
    by (auto simp: above_ground_def)
  from assms(3) have "hit_targets (integrate dt p) ts sc = (integrate dt p, ts, sc)"
    by (intro hit_targets_no_hit) simp
  with y show ?thesis
    by (simp add: update_parcel_active [OF assms(1) h])
qed

lemma update_parcel_lands:
  assumes "parcel.active p"
    "getTerrainHeight (vec_x (parcel.position (integrate dt p)))
       (vec_z (parcel.position (integrate dt p))) hm terrainScale terrainHeightScale = Inr h"
    "vec_y (parcel.position (integrate dt p)) \<le> h"
  shows "update_parcels dt hm [p] ts sc = Inr ([(integrate dt p)\<lparr>parcel.active := False\<rparr>], ts, sc)"
  using assms(3) by (simp add: update_parcel_active [OF assms(1,2)])

lemma parcel_lands_at_first_contact:
  assumes "parcel.active p"
    and "\<forall>k < length dts. above_ground (dts ! k) hm (fall (take k dts) p)
           \<and> (\<forall>t \<in> set ts. \<not> (target.active t \<and> hits (fall (take (Suc k) dts) p) t))"
    and "getTerrainHeight (vec_x (parcel.position (fall (dts @ [dt]) p)))
           (vec_z (parcel.position (fall (dts @ [dt]) p))) hm terrainScale terrainHeightScale = Inr h"
    and "vec_y (parcel.position (fall (dts @ [dt]) p)) \<le> h"
  shows "ticks hm dts [p] ts sc = Inr ([fall dts p], ts, sc)
       \<and> ticks hm (dts @ [dt] @ later) [p] ts sc
           = Inr ([(fall (dts @ [dt]) p)\<lparr>parcel.active := False\<rparr>], ts, sc)"
  using assms
proof (induction dts arbitrary: p)
  case Nil
  from update_parcel_lands [of p dt hm h ts sc] Nil.prems
  have "update_parcels dt hm [p] ts sc = Inr ([(integrate dt p)\<lparr>parcel.active := False\<rparr>], ts, sc)"
    by simp
  then show ?case
    by (simp add: ticks_all_inactive)
next
  case (Cons d dts)
  from Cons.prems(2) have 0: "above_ground d hm p"
    "\<forall>t \<in> set ts. \<not> (target.active t \<and> hits (integrate d p) t)"
    by force+
  from update_parcel_flies_on [OF Cons.prems(1) 0]
  have step: "update_parcels d hm [p] ts sc = Inr ([integrate d p], ts, sc)" .
  have rest: "\<forall>k < length dts. above_ground (dts ! k) hm (fall (take k dts) (integrate d p))
           \<and> (\<forall>t \<in> set ts. \<not> (target.active t \<and> hits (fall (take (Suc k) dts) (integrate d p)) t))"
  proof (intro allI impI)
    fix k
    assume "k < length dts"
    then have "Suc k < length (d # dts)"
      by simp
    with Cons.prems(2) show "above_ground (dts ! k) hm (fall (take k dts) (integrate d p))
           \<and> (\<forall>t \<in> set ts. \<not> (target.active t \<and> hits (fall (take (Suc k) dts) (integrate d p)) t))"
      by (metis fall.simps(2) nth_Cons_Suc take_Suc_Cons)
  qed
  have "parcel.active (integrate d p)"
    using Cons.prems(1) by simp
  from Cons.IH [OF this rest] Cons.prems(3,4) step show ?case
    by simp
qed

section \<open>The layout of main\<close>

text \<open>Every state that \<^verbatim>\<open>main\<close> reaches has the layout of \<open>main_layout\<close>.\<close>

lemma setup_targets_layout:
  assumes "setup_targets a i ts = Inr ts'" "0 \<le> i" "length ts = nat i"
    and "\<forall>k < length ts. vec_x (target.position (ts ! k)) = 15 * real k - 30
                           \<and> target.radius (ts ! k) = 5/2"
  shows "\<forall>k < length ts'. vec_x (target.position (ts' ! k)) = 15 * real k - 30
                           \<and> target.radius (ts' ! k) = 5/2"
  using assms
proof (induction n \<equiv> "nat (5 - i)" arbitrary: i ts)
  case 0
  then have "\<not> i < 5" by simp
  with "0.prems"(1) have "ts' = ts"
    by (subst (asm) setup_targets.simps) simp
  with "0.prems"(4) show ?case
    by simp
next
  case (Suc n)
  then have lt: "i < 5" by linarith
  from Suc.prems(1) lt obtain ty where
    r: "setup_targets a (i + 1)
          (ts @ [new_target (Vec3 (of_int i * 15 - 30) (ty + 2) (of_int i * 10 - 20))
                   (houseBody a) (houseRoof a)]) = Inr ts'"
    by (subst (asm) setup_targets.simps) (auto simp: Let_def split: sum.splits)
  let ?ts1 = "ts @ [new_target (Vec3 (of_int i * 15 - 30) (ty + 2) (of_int i * 10 - 20))
                      (houseBody a) (houseRoof a)]"
  have n: "n = nat (5 - (i + 1))"
    using Suc.hyps(2) by linarith
  have len: "length ?ts1 = nat (i + 1)"
    using Suc.prems(2,3) by simp
  have i: "real (length ts) = of_int i"
    using Suc.prems(2,3) by simp
  have lay: "\<forall>k < length ?ts1. vec_x (target.position (?ts1 ! k)) = 15 * real k - 30
                           \<and> target.radius (?ts1 ! k) = 5/2"
  proof (intro allI impI)
    fix k
    assume "k < length ?ts1"
    then consider "k < length ts" | "k = length ts"
      by fastforce
    then show "vec_x (target.position (?ts1 ! k)) = 15 * real k - 30
                           \<and> target.radius (?ts1 ! k) = 5/2"
    proof cases
      case 1
      with Suc.prems(4) show ?thesis
        by (simp add: nth_append)
    next
      case 2
      with i show ?thesis
        by (simp add: new_target_def)
    qed
  qed
  from Suc.hyps(1) [OF n r _ len lay] Suc.prems(2) show ?case
    by simp
qed

lemma update_parcels_layout:
  assumes "update_parcels dt hm ps ts sc = Inr (ps', ts', sc')" "main_layout ps ts"
  shows "main_layout ps' ts'"
proof -
  from assms(2) have sep: "separated ps ts"
    by (rule main_layout_separated)
  note ts' = update_parcels_targets [OF assms(1) sep]
  have "vertical q \<and> parcel.radius q = 1/2" if "q \<in> set ps'" for q
  proof -
    from update_parcels_origin [OF assms(1) that] obtain p where p: "p \<in> set ps"
      "q = p \<or> q = integrate dt p \<or> q = (integrate dt p)\<lparr>parcel.active := False\<rparr>"
      by blast
    from p(1) assms(2) have "vertical p \<and> parcel.radius p = 1/2"
      by (simp add: main_layout_def)
    with p(2) show ?thesis
      by auto
  qed
  moreover have "vec_x (target.position (ts' ! k)) = 15 * real k - 30
                 \<and> target.radius (ts' ! k) = 5/2" if "k < length ts'" for k
    using that assms(2) by (simp add: ts' main_layout_def deactivate_if_def)
  ultimately show ?thesis
    by (simp add: main_layout_def)
qed

lemma handle_event_layout:
  assumes "main_layout (parcels st) (targets st)"
  shows "main_layout (parcels (handle_event a e st)) (targets (handle_event a e st))"
  using assms by (cases e) (auto simp: main_layout_def new_parcel_layout)

lemma fold_handle_event_layout:
  assumes "main_layout (parcels st) (targets st)"
  shows "main_layout (parcels (fold (handle_event a) es st)) (targets (fold (handle_event a) es st))"
  using assms
proof (induction es arbitrary: st)
  case Nil
  then show ?case by simp
next
  case (Cons e es)
  from handle_event_layout [OF Cons.prems, of a e]
  have "main_layout (parcels (fold (handle_event a) es (handle_event a e st)))
          (targets (fold (handle_event a) es (handle_event a e st)))"
    by (rule Cons.IH)
  then show ?case
    by simp
qed

lemma frame_layout:
  assumes "frame a inp st = Inr st'" "main_layout (parcels st) (targets st)"
  shows "main_layout (parcels st') (targets st')"
proof -
  let ?st2 = "controls inp (fold (handle_event a) (frame_events inp) st)"
  from assms(1) obtain ps ts sc where
    u: "update_parcels (frame_dt inp) (heightMapImage a) (parcels ?st2) (targets ?st2) (score ?st2)
          = Inr (ps, ts, sc)"
    and st': "st' = ?st2\<lparr>parcels := ps, targets := ts, score := sc\<rparr>"
    by (auto simp: frame_def Let_def split: sum.splits)
  from fold_handle_event_layout [OF assms(2), of a "frame_events inp"]
  have "main_layout (parcels ?st2) (targets ?st2)"
    by simp
  from update_parcels_layout [OF u this] st' show ?thesis
    by simp
qed

lemma main_run_layout:
  assumes "main_run a inps = Inr st"
  shows "main_layout (parcels st) (targets st)"
proof -
  from assms obtain st0 where 0: "init_state a = Inr st0" and 1: "run a inps st0 = Inr st"
    by (auto simp: main_run_def split: sum.splits)
  from 0 obtain h ts where ts: "setup_targets a 0 [] = Inr ts"
    and st0: "st0 = \<lparr>airshipPos = Vec3 0 30 0, treePos = Vec3 20 h 20, targets = ts,
                      parcels = [], aimMode = False, score = 0\<rparr>"
    by (auto simp: init_state_def split: sum.splits)
  from setup_targets_layout [OF ts] st0 have "main_layout (parcels st0) (targets st0)"
    by (simp add: main_layout_def)
  with 1 show ?thesis
  proof (induction inps arbitrary: st0)
    case Nil
    then show ?case by simp
  next
    case (Cons inp inps)
    from Cons.prems(1) obtain st1 where f: "frame a inp st0 = Inr st1"
      and r: "run a inps st1 = Inr st"
      by (auto split: sum.splits)
    from frame_layout [OF f Cons.prems(2)] have "main_layout (parcels st1) (targets st1)" .
    with r show ?case
      by (rule Cons.IH)
  qed
qed

text \<open>So in every state that \<^verbatim>\<open>main\<close> reaches, the order in which the parcels would be
  ticked from there on does not matter for the targets and the score.\<close>

lemma main_run_order_independent:
  assumes "loaded (heightMapImage a)" "main_run a inps = Inr st" "mset ps2 = mset (parcels st)"
  shows "\<exists>ps' ps2' ts' sc'.
           ticks (heightMapImage a) dts (parcels st) (targets st) (score st) = Inr (ps', ts', sc')
         \<and> ticks (heightMapImage a) dts ps2 (targets st) (score st) = Inr (ps2', ts', sc')"
proof -
  let ?hm = "heightMapImage a"
  from main_run_layout [OF assms(2)] have sep: "separated (parcels st) (targets st)"
    by (rule main_layout_separated)
  from assms(3) have set: "set ps2 = set (parcels st)"
    by (rule mset_eq_setD)
  with sep have sep2: "separated ps2 (targets st)"
    by (simp add: separated_def)
  from set have us: "useful (targets st) (parcels st) = useful (targets st) ps2"
    by (simp add: useful_def)
  from ticks_loaded [OF assms(1)] obtain ps' ts' sc' where
    1: "ticks ?hm dts (parcels st) (targets st) (score st) = Inr (ps', ts', sc')"
    by (metis prod_cases3)
  from ticks_loaded [OF assms(1)] obtain ps2' ts2' sc2' where
    2: "ticks ?hm dts ps2 (targets st) (score st) = Inr (ps2', ts2', sc2')"
    by (metis prod_cases3)
  from ticks_congruence [OF 1 2 sep sep2 us] 1 2 show ?thesis
    by auto
qed

section \<open>The order of the parcels in main\<close>

text \<open>The main loop keeps two states in agreement that differ only in the order of their
  parcels: events, controls and the update loop do the same to both.\<close>

lemma useful_append:
  "useful ts (ps @ qs) = useful ts ps \<union> useful ts qs"
  by (auto simp: useful_def)

lemma handle_event_agree:
  assumes "agree_but_order st1 st2"
  shows "agree_but_order (handle_event a e st1) (handle_event a e st2)"
proof -
  from assms have l1: "main_layout (parcels st1) (targets st1)"
    and l2: "main_layout (parcels st2) (targets st2)"
    by (simp_all add: agree_but_order_def)
  from handle_event_layout [OF l1, of a e] handle_event_layout [OF l2, of a e] assms
  show ?thesis
    by (cases e) (simp_all add: agree_but_order_def useful_append)
qed

lemma fold_handle_event_agree:
  assumes "agree_but_order st1 st2"
  shows "agree_but_order (fold (handle_event a) es st1) (fold (handle_event a) es st2)"
  using assms
proof (induction es arbitrary: st1 st2)
  case Nil
  then show ?case by simp
next
  case (Cons e es)
  from handle_event_agree [OF Cons.prems, of a e]
  have "agree_but_order (fold (handle_event a) es (handle_event a e st1))
          (fold (handle_event a) es (handle_event a e st2))"
    by (rule Cons.IH)
  then show ?case
    by simp
qed

lemma controls_other [simp]:
  "treePos (controls inp st) = treePos st" "aimMode (controls inp st) = aimMode st"
  by (simp_all add: controls_def Let_def)

lemma controls_airshipPos:
  assumes "airshipPos st2 = airshipPos st1"
  shows "airshipPos (controls inp st2) = airshipPos (controls inp st1)"
  using assms by (simp add: controls_def Let_def)

lemma controls_agree:
  assumes "agree_but_order st1 st2"
  shows "agree_but_order (controls inp st1) (controls inp st2)"
  using assms controls_airshipPos [of st2 st1 inp] by (simp add: agree_but_order_def)

lemma frame_agree:
  assumes "frame a inp st1 = Inr st1'" "frame a inp st2 = Inr st2'" "agree_but_order st1 st2"
  shows "agree_but_order st1' st2'"
proof -
  let ?m1 = "controls inp (fold (handle_event a) (frame_events inp) st1)"
  let ?m2 = "controls inp (fold (handle_event a) (frame_events inp) st2)"
  from controls_agree [OF fold_handle_event_agree [OF assms(3)]]
  have ag: "agree_but_order ?m1 ?m2" .
  from assms(1) obtain ps1 ts1 sc1 where
    u1: "update_parcels (frame_dt inp) (heightMapImage a) (parcels ?m1) (targets ?m1) (score ?m1)
          = Inr (ps1, ts1, sc1)"
    and s1: "st1' = ?m1\<lparr>parcels := ps1, targets := ts1, score := sc1\<rparr>"
    by (auto simp: frame_def Let_def split: sum.splits)
  from assms(2) obtain ps2 ts2 sc2 where
    u2: "update_parcels (frame_dt inp) (heightMapImage a) (parcels ?m2) (targets ?m2) (score ?m2)
          = Inr (ps2, ts2, sc2)"
    and s2: "st2' = ?m2\<lparr>parcels := ps2, targets := ts2, score := sc2\<rparr>"
    by (auto simp: frame_def Let_def split: sum.splits)
  from ag have t: "targets ?m2 = targets ?m1" and c: "score ?m2 = score ?m1"
    and l1: "main_layout (parcels ?m1) (targets ?m1)"
    and l2: "main_layout (parcels ?m2) (targets ?m1)"
    and us: "useful (targets ?m1) (parcels ?m1) = useful (targets ?m1) (parcels ?m2)"
    and rest: "airshipPos ?m2 = airshipPos ?m1" "treePos ?m2 = treePos ?m1"
      "aimMode ?m2 = aimMode ?m1"
    by (simp_all add: agree_but_order_def)
  from u2 t c have u2': "update_parcels (frame_dt inp) (heightMapImage a) (parcels ?m2)
      (targets ?m1) (score ?m1) = Inr (ps2, ts2, sc2)"
    by simp
  from tick_congruence [OF u1 u2' main_layout_separated [OF l1] main_layout_separated [OF l2] us]
  have eq: "ts1 = ts2" "sc1 = sc2" "useful ts1 ps1 = useful ts2 ps2"
    by blast+
  from update_parcels_layout [OF u1 l1] have n1: "main_layout ps1 ts1" .
  from update_parcels_layout [OF u2' l2] eq(1) have n2: "main_layout ps2 ts1"
    by simp
  from s1 s2 eq n1 n2 rest show ?thesis
    by (simp add: agree_but_order_def)
qed

lemma run_agree:
  assumes "run a inps st1 = Inr st1'" "run a inps st2 = Inr st2'" "agree_but_order st1 st2"
  shows "agree_but_order st1' st2'"
  using assms
proof (induction inps arbitrary: st1 st2)
  case Nil
  then show ?case by simp
next
  case (Cons inp inps)
  from Cons.prems(1) obtain m1 where f1: "frame a inp st1 = Inr m1"
    and r1: "run a inps m1 = Inr st1'"
    by (auto split: sum.splits)
  from Cons.prems(2) obtain m2 where f2: "frame a inp st2 = Inr m2"
    and r2: "run a inps m2 = Inr st2'"
    by (auto split: sum.splits)
  from frame_agree [OF f1 f2 Cons.prems(3)] have "agree_but_order m1 m2" .
  with r1 r2 show ?case
    by (rule Cons.IH)
qed

lemma main_layout_reorder:
  assumes "main_layout ps ts" "set ps2 = set ps"
  shows "main_layout ps2 ts"
  using assms by (simp add: main_layout_def)

text \<open>Frames without events are ticks: the update loop run once for each elapsed time.\<close>

lemma frame_without_events:
  assumes "frame a inp st = Inr st'" "frame_events inp = []"
  shows "update_parcels (frame_dt inp) (heightMapImage a) (parcels st) (targets st) (score st)
           = Inr (parcels st', targets st', score st')"
  using assms by (auto simp: frame_def Let_def split: sum.splits)

lemma run_without_events:
  assumes "run a inps st = Inr st'" "\<forall>inp \<in> set inps. frame_events inp = []"
  shows "ticks (heightMapImage a) (map frame_dt inps) (parcels st) (targets st) (score st)
           = Inr (parcels st', targets st', score st')"
  using assms
proof (induction inps arbitrary: st)
  case Nil
  then show ?case by simp
next
  case (Cons inp inps)
  from Cons.prems(1) obtain st1 where f: "frame a inp st = Inr st1"
    and r: "run a inps st1 = Inr st'"
    by (auto split: sum.splits)
  from Cons.prems(2) have e: "frame_events inp = []" "\<forall>inp \<in> set inps. frame_events inp = []"
    by simp_all
  from frame_without_events [OF f e(1)] Cons.IH [OF r e(2)] show ?case
    by simp
qed

text \<open>
  Claim C1. Take any state \<open>st\<close> that \<^verbatim>\<open>main\<close> reaches, at any tick, and any other order
  \<open>ps2\<close> of its parcel list. Letting the main loop run on from \<open>st\<close> and from \<open>st\<close> with its
  parcels in the order \<open>ps2\<close>, over the same frames (each parcel integrating,
  ground-checking, then hit-testing the targets in list order), gives the same score and
  the same targets after every frame; with a loaded height map both runs do return. And
  with no further parcel dropped, the score that each order has reached when all its
  parcels have become inactive is the same.
\<close>

theorem parcel_order_independent:
  assumes "main_run a inps = Inr st" "mset ps2 = mset (parcels st)"
  shows "(loaded (heightMapImage a) \<longrightarrow>
            (\<exists>st1 st2. run a later st = Inr st1 \<and> run a later (st\<lparr>parcels := ps2\<rparr>) = Inr st2))
       \<and> (\<forall>st1 st2. run a later st = Inr st1 \<and> run a later (st\<lparr>parcels := ps2\<rparr>) = Inr st2
            \<longrightarrow> score st2 = score st1 \<and> targets st2 = targets st1)
       \<and> (\<forall>n m psa tsa sca psb tsb scb.
            ticks (heightMapImage a) (take n dts) (parcels st) (targets st) (score st)
              = Inr (psa, tsa, sca)
          \<and> list_all (\<lambda>p. \<not> parcel.active p) psa
          \<and> ticks (heightMapImage a) (take m dts) ps2 (targets st) (score st)
              = Inr (psb, tsb, scb)
          \<and> list_all (\<lambda>p. \<not> parcel.active p) psb
          \<longrightarrow> sca = scb \<and> tsa = tsb)"
proof -
  from assms(2) have set: "set ps2 = set (parcels st)"
    by (rule mset_eq_setD)
  from main_run_layout [OF assms(1)] have l1: "main_layout (parcels st) (targets st)" .
  from main_layout_reorder [OF l1 set] have l2: "main_layout ps2 (targets st)" .
  from set have us: "useful (targets st) (parcels st) = useful (targets st) ps2"
    by (simp add: useful_def)
  from l1 l2 us have ag: "agree_but_order st (st\<lparr>parcels := ps2\<rparr>)"
    by (simp add: agree_but_order_def)
  have first: "\<exists>st1 st2. run a later st = Inr st1 \<and> run a later (st\<lparr>parcels := ps2\<rparr>) = Inr st2"
    if "loaded (heightMapImage a)"
    using run_loaded [OF that, of later st] run_loaded [OF that, of later "st\<lparr>parcels := ps2\<rparr>"]
    by blast
  have second: "score st2 = score st1 \<and> targets st2 = targets st1"
    if "run a later st = Inr st1" "run a later (st\<lparr>parcels := ps2\<rparr>) = Inr st2" for st1 st2
    using run_agree [OF that ag] by (simp add: agree_but_order_def)
  have third: "sca = scb \<and> tsa = tsb"
    if "ticks (heightMapImage a) (take n dts) (parcels st) (targets st) (score st)
          = Inr (psa, tsa, sca)"
      "list_all (\<lambda>p. \<not> parcel.active p) psa"
      "ticks (heightMapImage a) (take m dts) ps2 (targets st) (score st) = Inr (psb, tsb, scb)"
      "list_all (\<lambda>p. \<not> parcel.active p) psb"
    for n m psa tsa sca psb tsb scb
    using final_scores_agree [OF main_layout_separated [OF l1] main_layout_separated [OF l2] us that]
    by simp
  from first second third show ?thesis
    by blast
qed

text \<open>Two parcels dropped one frame apart come within range of the middle target in the
  same tick. In list order the first one hits it; in reverse order the other one does.
  The score is 1 both ways.\<close>

lemmas sim_eval =
  frame_def Let_def controls_def update_parcel_def integrate_def terrain_black
  sample_assets_simps new_parcel_def new_target_def hits_iff vec_add_def vec_sub_def
  vec_scale_def dot_def power2_eq_square

lemma two_parcels_reached:
  "main_run sample_assets [descend_drop_frame, drop_frame] = Inr two_parcels_state"
  by (simp add: main_run_def init_sample descend_drop_frame_def drop_frame_def
      two_parcels_state_def sample_targets_def sim_eval)

lemma two_parcels_in_order:
  "run sample_assets [idle_frame, idle_frame, idle_frame] two_parcels_state =
     Inr (two_parcels_state
            \<lparr>parcels := [(new_parcel (Vec3 0 4.44 0) no_mesh)\<lparr>parcel.active := False\<rparr>,
                         new_parcel (Vec3 0 3.4 0) no_mesh],
             targets := sample_targets[2 := (sample_targets ! 2)\<lparr>target.active := False\<rparr>],
             score := 1\<rparr>)"
  by (simp add: idle_frame_def two_parcels_state_def sample_targets_def sim_eval)

lemma two_parcels_reversed:
  "run sample_assets [idle_frame, idle_frame, idle_frame]
     (two_parcels_state\<lparr>parcels := rev (parcels two_parcels_state)\<rparr>) =
     Inr (two_parcels_state
            \<lparr>parcels := [(new_parcel (Vec3 0 3.4 0) no_mesh)\<lparr>parcel.active := False\<rparr>,
                         new_parcel (Vec3 0 4.44 0) no_mesh],
             targets := sample_targets[2 := (sample_targets ! 2)\<lparr>target.active := False\<rparr>],
             score := 1\<rparr>)"
  by (simp add: idle_frame_def two_parcels_state_def sample_targets_def sim_eval)

theorem parcel_order_independent_witness:
  "\<exists>st1 st2.
     main_run sample_assets [descend_drop_frame, drop_frame] = Inr two_parcels_state
   \<and> run sample_assets [idle_frame, idle_frame, idle_frame] two_parcels_state = Inr st1
   \<and> run sample_assets [idle_frame, idle_frame, idle_frame]
        (two_parcels_state\<lparr>parcels := rev (parcels two_parcels_state)\<rparr>) = Inr st2
   \<and> score st1 = 1 \<and> score st2 = score st1 \<and> targets st2 = targets st1
   \<and> \<not> parcel.active (parcels st1 ! 0) \<and> parcel.active (parcels st1 ! 1)
   \<and> parcels st2 \<noteq> rev (parcels st1)"
proof -
  let ?more = "[idle_frame, idle_frame, idle_frame]"
  let ?st2 = "two_parcels_state\<lparr>parcels := rev (parcels two_parcels_state)\<rparr>"
  have m: "mset (rev (parcels two_parcels_state)) = mset (parcels two_parcels_state)"
    by simp
  note th = parcel_order_independent [OF two_parcels_reached m, of ?more]
  have "loaded (heightMapImage sample_assets)"
    by (simp add: sample_assets_simps loaded_black_image)
  with th obtain st1 st2 where
    1: "run sample_assets ?more two_parcels_state = Inr st1"
    and 2: "run sample_assets ?more ?st2 = Inr st2"
    by blast
  with th have eq: "score st2 = score st1" "targets st2 = targets st1"
    by blast+
  from 1 two_parcels_in_order have s1: "score st1 = 1"
    "\<not> parcel.active (parcels st1 ! 0)" "parcel.active (parcels st1 ! 1)"
    by (auto simp: new_parcel_def)
  from 1 2 two_parcels_in_order two_parcels_reversed have ne: "parcels st2 \<noteq> rev (parcels st1)"
    by (auto simp: new_parcel_def)
  from two_parcels_reached 1 2 eq s1 ne show ?thesis
    by blast
qed

end
